theory Spec2Isabelle
  imports Complex_Main "HOL-Library.AList"
begin

section \<open>Data model\<close>

text \<open>
  The traversals of \<^verbatim>\<open>src/app.py\<close> use a graph only through \<^verbatim>\<open>G.neighbors(node)\<close>.
  A graph is modelled as its adjacency dictionary: an association list from a node to the
  list of its neighbours, in the order the neighbour query yields them. Nodes are the
  labels \<open>0, 1, 2, ...\<close> (the start node of both traversals is the label \<open>0\<close>).
  Asking for the neighbours of a label that is not a node of the graph raises.
\<close>

type_synonym node = nat

type_synonym graph = "(node \<times> node list) list"

datatype error = NetworkXError node

definition nodes :: "graph \<Rightarrow> node list" where
  "nodes G = map fst G"

definition neighbors :: "graph \<Rightarrow> node \<Rightarrow> error + node list" where
  "neighbors G n = (case map_of G n of None \<Rightarrow> Inl (NetworkXError n) | Some ns \<Rightarrow> Inr ns)"

text \<open>Every label that occurs in the graph, as a node or as a neighbour.\<close>

definition labels :: "graph \<Rightarrow> node set" where
  "labels G = set (nodes G) \<union> (\<Union>(n, ns) \<in> set G. set ns)"

section \<open>The discovery stream, \<^verbatim>\<open>bfs_generator\<close>\<close>

text \<open>
  The inner \<^verbatim>\<open>for neighbor in G.neighbors(node)\<close> loop: a neighbour that is not yet
  visited is added to the visited set and appended to the queue.
\<close>

fun visit_neighbors :: "node list \<Rightarrow> node set \<Rightarrow> node list \<Rightarrow> node set \<times> node list" where
  "visit_neighbors [] visited queue = (visited, queue)"
| "visit_neighbors (neighbor # ns) visited queue =
     (if neighbor \<notin> visited
      then visit_neighbors ns (insert neighbor visited) (queue @ [neighbor])
      else visit_neighbors ns visited queue)"

lemma visit_neighbors_fst: "fst (visit_neighbors ns V Q) = V \<union> set ns"
  by (induction ns V Q rule: visit_neighbors.induct) auto

lemma visit_neighbors_snd:
  "\<exists>new. snd (visit_neighbors ns V Q) = Q @ new \<and> distinct new \<and> set new = set ns - V"
proof (induction ns V Q rule: visit_neighbors.induct)
  case (1 visited queue)
  then show ?case by simp
next
  case (2 neighbor ns visited queue)
  show ?case
  proof (cases "neighbor \<in> visited")
    case True
    with 2 show ?thesis by auto
  next
    case False
    with 2 obtain new where new:
      "snd (visit_neighbors ns (insert neighbor visited) (queue @ [neighbor])) = (queue @ [neighbor]) @ new"
      "distinct new" "set new = set ns - insert neighbor visited"
      by blast
    have "snd (visit_neighbors (neighbor # ns) visited queue) = queue @ (neighbor # new)"
      using False new(1) by simp
    moreover have "distinct (neighbor # new)" using new by auto
    moreover have "set (neighbor # new) = set (neighbor # ns) - visited" using new False by auto
    ultimately show ?thesis by blast
  qed
qed

lemma visit_neighbors_cases:
  assumes "visit_neighbors ns V Q = (V', Q')"
  obtains new where "V' = V \<union> set ns" "Q' = Q @ new" "distinct new" "set new = set ns - V"
  using visit_neighbors_fst [of ns V Q] visit_neighbors_snd [of ns V Q] assms by auto

lemma neighbors_labels: "neighbors G n = Inr ns \<Longrightarrow> set ns \<subseteq> labels G"
  by (auto simp: neighbors_def labels_def split: option.splits dest!: map_of_SomeD)

lemma neighbors_nodes: "neighbors G n = Inr ns \<Longrightarrow> n \<in> set (nodes G)"
  by (auto simp: neighbors_def nodes_def split: option.splits dest!: map_of_SomeD intro: rev_image_eqI)

lemma finite_labels: "finite (labels G)"
  by (auto simp: labels_def)

text \<open>
  The \<^verbatim>\<open>while queue\<close> loop. The result is the list of the snapshots yielded, and how the
  generator ended: \<open>None\<close> when the queue ran empty (\<^verbatim>\<open>StopIteration\<close> at the next pull),
  \<open>Some e\<close> when the pull after the last snapshot raised \<open>e\<close>.
\<close>

function bfs_generator_loop :: "graph \<Rightarrow> node set \<Rightarrow> node list \<Rightarrow> node set list \<times> error option" where
  "bfs_generator_loop G visited [] = ([], None)"
| "bfs_generator_loop G visited (node # queue) =
     (case neighbors G node of
        Inl e \<Rightarrow> ([], Some e)
      | Inr ns \<Rightarrow>
          (case visit_neighbors ns visited queue of
             (visited', queue') \<Rightarrow>
               (case bfs_generator_loop G visited' queue' of
                  (snapshots, ending) \<Rightarrow> (visited' # snapshots, ending))))"
  by pat_completeness auto

lemma bfs_step_decreases:
  assumes "neighbors G n = Inr ns" and "visit_neighbors ns V Q = (V', Q')"
  shows "card (labels G - V') < card (labels G - V) \<or>
         (card (labels G - V') = card (labels G - V) \<and> length Q' < length (n # Q))"
proof -
  from assms(2) obtain new where new: "V' = V \<union> set ns" "Q' = Q @ new" "set new = set ns - V"
    by (rule visit_neighbors_cases)
  show ?thesis
  proof (cases "new = []")
    case True
    then have "V' = V" using new by auto
    with True new show ?thesis by simp
  next
    case False
    then obtain x where x: "x \<in> set ns" "x \<notin> V" using new(3) by (cases new) auto
    have "x \<in> labels G" using neighbors_labels [OF assms(1)] x by auto
    then have "labels G - V' \<subset> labels G - V" using x new(1) by auto
    then show ?thesis using finite_labels [of G] by (simp add: psubset_card_mono)
  qed
qed

termination bfs_generator_loop
proof (relation "measures [\<lambda>(G, V, Q). card (labels G - V), \<lambda>(G, V, Q). length Q]")
  show "wf (measures [\<lambda>(G, V, Q). card (labels G - V), \<lambda>(G, V, Q). length Q])" by simp
next
  fix G visited n queue ns x y
  assume "neighbors G n = Inr ns" and "(x, y) = visit_neighbors ns visited queue"
  then have "neighbors G n = Inr ns" and "visit_neighbors ns visited queue = (x, y)" by simp_all
  then show "((G, x, y), (G, visited, n # queue))
      \<in> measures [\<lambda>(G, V, Q). card (labels G - V), \<lambda>(G, V, Q). length Q]"
    using bfs_step_decreases [of G n ns visited queue x y] by (auto simp del: visit_neighbors.simps)
qed

definition bfs_generator :: "graph \<Rightarrow> node \<Rightarrow> node set list \<times> error option" where
  "bfs_generator G start = bfs_generator_loop G {start} [start]"

section \<open>The depth histogram, \<^verbatim>\<open>bfs_spread\<close>\<close>

text \<open>
  The histogram \<^verbatim>\<open>levels\<close> is a dictionary from depth to count. Its keys and values are
  read in insertion order by the caller, so it is an association list:
  \<^verbatim>\<open>levels[depth] = v\<close> replaces the value of a key that is present and appends a new
  key at the end (\<^const>\<open>AList.update\<close>), and \<^verbatim>\<open>levels.get(depth, 0)\<close> reads the value
  or the default.
\<close>

type_synonym histogram = "(nat \<times> nat) list"

definition get :: "histogram \<Rightarrow> nat \<Rightarrow> nat \<Rightarrow> nat" where
  "get levels depth dflt = (case map_of levels depth of None \<Rightarrow> dflt | Some c \<Rightarrow> c)"

text \<open>
  The inner \<^verbatim>\<open>for n in G.neighbors(node)\<close> loop of \<^verbatim>\<open>bfs_spread\<close>: the queue holds
  pairs of a node and its depth.
\<close>

fun spread_neighbors ::
  "node list \<Rightarrow> nat \<Rightarrow> node set \<Rightarrow> (node \<times> nat) list \<Rightarrow> node set \<times> (node \<times> nat) list" where
  "spread_neighbors [] depth visited queue = (visited, queue)"
| "spread_neighbors (n # ns) depth visited queue =
     (if n \<notin> visited
      then spread_neighbors ns depth (insert n visited) (queue @ [(n, depth + 1)])
      else spread_neighbors ns depth visited queue)"

lemma spread_neighbors_eq:
  "spread_neighbors ns d V Q =
     (fst (visit_neighbors ns V (map fst Q)),
      Q @ map (\<lambda>n. (n, d + 1)) (drop (length Q) (snd (visit_neighbors ns V (map fst Q)))))"
proof (induction ns d V Q rule: spread_neighbors.induct)
  case (1 depth visited queue)
  then show ?case by simp
next
  case (2 n ns depth visited queue)
  obtain new where new:
    "snd (visit_neighbors ns (insert n visited) (map fst queue @ [n])) = (map fst queue @ [n]) @ new"
    using visit_neighbors_snd by blast
  show ?case
  proof (cases "n \<in> visited")
    case True
    with 2 show ?thesis by simp
  next
    case False
    with 2 new show ?thesis by simp
  qed
qed

lemma spread_neighbors_cases:
  assumes "spread_neighbors ns d V Q = (V', Q')"
  obtains new where "visit_neighbors ns V (map fst Q) = (V', map fst Q @ new)"
    and "Q' = Q @ map (\<lambda>n. (n, d + 1)) new"
proof -
  obtain new where new: "snd (visit_neighbors ns V (map fst Q)) = map fst Q @ new"
    using visit_neighbors_snd by blast
  have "V' = fst (visit_neighbors ns V (map fst Q))" and "Q' = Q @ map (\<lambda>n. (n, d + 1)) new"
    using assms new unfolding spread_neighbors_eq by simp_all
  then show ?thesis using new that [of new] by (simp add: prod_eq_iff)
qed

text \<open>
  The \<^verbatim>\<open>while queue\<close> loop of \<^verbatim>\<open>bfs_spread\<close>. The count of the depth is raised before
  the neighbours of the node are asked for; an error of the neighbour query ends the call.
\<close>

function bfs_spread_loop ::
  "graph \<Rightarrow> node set \<Rightarrow> (node \<times> nat) list \<Rightarrow> histogram \<Rightarrow> error + histogram" where
  "bfs_spread_loop G visited [] levels = Inr levels"
| "bfs_spread_loop G visited ((node, depth) # queue) levels =
     (let levels' = AList.update depth (get levels depth 0 + 1) levels
      in case neighbors G node of
           Inl e \<Rightarrow> Inl e
         | Inr ns \<Rightarrow>
             (case spread_neighbors ns depth visited queue of
                (visited', queue') \<Rightarrow> bfs_spread_loop G visited' queue' levels'))"
  by pat_completeness auto

termination bfs_spread_loop
proof (relation "measures [\<lambda>(G, V, Q, L). card (labels G - V), \<lambda>(G, V, Q, L). length Q]")
  show "wf (measures [\<lambda>(G, V, Q, L). card (labels G - V), \<lambda>(G, V, Q, L). length (Q :: (node \<times> nat) list)])"
    by simp
next
  fix G visited n depth queue ns x y and levels levels' :: histogram
  assume "neighbors G n = Inr ns" and "(x, y) = spread_neighbors ns depth visited queue"
  then have nb: "neighbors G n = Inr ns" and sp: "spread_neighbors ns depth visited queue = (x, y)"
    by simp_all
  from sp obtain new where new: "visit_neighbors ns visited (map fst queue) = (x, map fst queue @ new)"
    "y = queue @ map (\<lambda>n. (n, depth + 1)) new"
    by (rule spread_neighbors_cases)
  show "((G, x, y, levels'), (G, visited, (n, depth) # queue, levels))
      \<in> measures [\<lambda>(G, V, Q, L). card (labels G - V), \<lambda>(G, V, Q, L). length Q]"
    using bfs_step_decreases [OF nb new(1)] new(2) by auto
qed

definition bfs_spread :: "graph \<Rightarrow> error + histogram" where
  "bfs_spread G = bfs_spread_loop G {0} [(0, 0)] []"

section \<open>Graphs: edges, reachability and depth\<close>

text \<open>
  \<open>adj G n\<close> is the neighbour list of a node (empty for a label that is not a node);
  \<open>closed\<close> says that every neighbour is a node of the graph and \<open>undirected\<close> that
  adjacency is symmetric, as in every graph the graph library builds. The depth of a node
  is the length of a shortest path from the start node.
\<close>

definition adj :: "graph \<Rightarrow> node \<Rightarrow> node list" where
  "adj G n = (case map_of G n of None \<Rightarrow> [] | Some ns \<Rightarrow> ns)"

definition edges :: "graph \<Rightarrow> (node \<times> node) set" where
  "edges G = {(u, v). v \<in> set (adj G u)}"

definition closed :: "graph \<Rightarrow> bool" where
  "closed G = (\<forall>n \<in> set (nodes G). \<forall>m \<in> set (adj G n). m \<in> set (nodes G))"

definition undirected :: "graph \<Rightarrow> bool" where
  "undirected G = (\<forall>n \<in> set (nodes G). \<forall>m \<in> set (adj G n). n \<in> set (adj G m))"

definition reachable :: "graph \<Rightarrow> node \<Rightarrow> node set" where
  "reachable G s = {v. (s, v) \<in> (edges G)\<^sup>*}"

definition component :: "graph \<Rightarrow> node \<Rightarrow> node set" where
  "component G s = {v. (s, v) \<in> (edges G \<union> (edges G)\<inverse>)\<^sup>*}"

definition depth :: "graph \<Rightarrow> node \<Rightarrow> node \<Rightarrow> nat" where
  "depth G s v = (LEAST k. (s, v) \<in> edges G ^^ k)"

definition depth_closed :: "graph \<Rightarrow> node \<Rightarrow> node set \<Rightarrow> bool" where
  "depth_closed G s S = (\<forall>u \<in> S. \<forall>w \<in> reachable G s - S. depth G s u \<le> depth G s w)"

lemma neighbors_adj: "neighbors G n = Inr ns \<Longrightarrow> adj G n = ns"
  by (auto simp: neighbors_def adj_def split: option.splits)

lemma neighbors_Inl: "neighbors G n = Inl e \<Longrightarrow> n \<notin> set (nodes G) \<and> e = NetworkXError n"
  by (auto simp: neighbors_def nodes_def map_of_eq_None_iff split: option.splits)

lemma neighbors_node: "n \<in> set (nodes G) \<Longrightarrow> neighbors G n = Inr (adj G n)"
  by (cases "map_of G n") (auto simp: neighbors_def adj_def nodes_def map_of_eq_None_iff)

lemma adj_not_node: "n \<notin> set (nodes G) \<Longrightarrow> adj G n = []"
  by (cases "map_of G n") (auto simp: adj_def nodes_def dest!: map_of_SomeD intro: rev_image_eqI)

lemma undirected_edges: "undirected G \<Longrightarrow> (edges G)\<inverse> = edges G"
proof -
  assume u: "undirected G"
  have "(b, a) \<in> edges G" if "(a, b) \<in> edges G" for a b
  proof -
    from that have b: "b \<in> set (adj G a)" by (simp add: edges_def)
    have "a \<in> set (nodes G)"
    proof (rule ccontr)
      assume "a \<notin> set (nodes G)"
      then have "adj G a = []" by (rule adj_not_node)
      with b show False by simp
    qed
    with u b show ?thesis by (auto simp: undirected_def edges_def)
  qed
  then show ?thesis by auto
qed

lemma component_reachable: "undirected G \<Longrightarrow> component G s = reachable G s"
  by (simp add: component_def reachable_def undirected_edges)

lemma reachable_start: "s \<in> reachable G s"
  by (simp add: reachable_def)

lemma reachable_edge: "u \<in> reachable G s \<Longrightarrow> (u, v) \<in> edges G \<Longrightarrow> v \<in> reachable G s"
  by (auto simp: reachable_def intro: rtrancl_into_rtrancl)

lemma depth_path: "v \<in> reachable G s \<Longrightarrow> (s, v) \<in> edges G ^^ depth G s v"
  unfolding depth_def reachable_def
  by (rule LeastI_ex) (auto dest: rtrancl_imp_relpow)

lemma depth_le: "(s, v) \<in> edges G ^^ k \<Longrightarrow> depth G s v \<le> k"
  unfolding depth_def by (rule Least_le)

lemma depth_start: "depth G s s = 0"
  using depth_le [where k = 0 and s = s and v = s and G = G] by simp

lemma depth_zero: "w \<in> reachable G s \<Longrightarrow> depth G s w = 0 \<Longrightarrow> w = s"
  using depth_path [of w G s] by simp

lemma depth_edge:
  assumes "u \<in> reachable G s" and "(u, v) \<in> edges G"
  shows "depth G s v \<le> depth G s u + 1"
proof -
  have "(s, v) \<in> edges G ^^ Suc (depth G s u)"
    using depth_path [OF assms(1)] assms(2) by (rule relpow_Suc_I)
  then show ?thesis using depth_le by fastforce
qed

lemma depth_pred:
  assumes "w \<in> reachable G s" and "depth G s w = Suc k"
  obtains x where "x \<in> reachable G s" and "depth G s x = k" and "(x, w) \<in> edges G"
proof -
  have "(s, w) \<in> edges G ^^ Suc k" using depth_path [OF assms(1)] assms(2) by simp
  then obtain x where x: "(s, x) \<in> edges G ^^ k" "(x, w) \<in> edges G"
    by (rule relpow_Suc_E)
  have r: "x \<in> reachable G s" using x(1) by (auto simp: reachable_def dest: relpow_imp_rtrancl)
  have "depth G s x \<le> k" using x(1) by (rule depth_le)
  moreover have "Suc k \<le> depth G s x + 1" using depth_edge [OF r x(2)] assms(2) by simp
  ultimately have "depth G s x = k" by simp
  then show ?thesis using r x(2) that by blast
qed

definition bfs_inv :: "graph \<Rightarrow> node \<Rightarrow> node set \<Rightarrow> node list \<Rightarrow> bool" where
  "bfs_inv G s V Q \<longleftrightarrow>
     distinct Q \<and> set Q \<subseteq> V \<and> s \<in> V \<and> V \<subseteq> reachable G s \<and>
     (\<forall>u \<in> V - set Q. \<forall>v. (u, v) \<in> edges G \<longrightarrow> v \<in> V) \<and>
     sorted (map (depth G s) Q) \<and>
     (\<forall>h \<in> set (take 1 Q).
        (\<forall>v \<in> V. depth G s v \<le> depth G s h + 1) \<and>
        (\<forall>w \<in> reachable G s. depth G s w \<le> depth G s h \<longrightarrow> w \<in> V))"

lemma bfs_inv_init: "bfs_inv G s {s} [s]"
  by (auto simp: bfs_inv_def reachable_start depth_start dest: depth_zero)

lemma sorted_map_const: "\<forall>x \<in> set xs. f x = (c::nat) \<Longrightarrow> sorted (map f xs)"
  by (induction xs) auto

lemma bfs_inv_step:
  assumes inv: "bfs_inv G s V (h # Q)"
    and nb: "neighbors G h = Inr ns"
    and vn: "visit_neighbors ns V Q = (V', Q')"
  shows "bfs_inv G s V' Q'" and "depth_closed G s V'"
proof -
  let ?d = "depth G s"
  from inv have raw: "distinct (h # Q)" "set (h # Q) \<subseteq> V" "s \<in> V" "V \<subseteq> reachable G s"
    "\<forall>u \<in> V - set (h # Q). \<forall>v. (u, v) \<in> edges G \<longrightarrow> v \<in> V"
    "sorted (map ?d (h # Q))"
    "\<forall>h' \<in> set (take 1 (h # Q)).
        (\<forall>v \<in> V. ?d v \<le> ?d h' + 1) \<and> (\<forall>w \<in> reachable G s. ?d w \<le> ?d h' \<longrightarrow> w \<in> V)"
    unfolding bfs_inv_def by blast+
  note i1 = raw(1) and i2 = raw(2) and i3 = raw(3) and i4 = raw(4) and i6 = raw(6)
  have i5: "v \<in> V" if "u \<in> V" "u \<notin> set (h # Q)" "(u, v) \<in> edges G" for u v
    using raw(5) that by blast
  have i7: "?d v \<le> ?d h + 1" if "v \<in> V" for v
    using raw(7) that by simp
  have i8: "w \<in> V" if "w \<in> reachable G s" "?d w \<le> ?d h" for w
    using raw(7) that by simp
  from vn obtain new where V': "V' = V \<union> set ns" and Q': "Q' = Q @ new"
    and dn: "distinct new" and sn: "set new = set ns - V"
    by (rule visit_neighbors_cases)
  have adj: "adj G h = ns" using nb by (rule neighbors_adj)
  have hr: "h \<in> reachable G s" using i2 i4 by auto
  have f1: "v \<in> reachable G s \<and> ?d v \<le> ?d h + 1" if "v \<in> set ns" for v
  proof -
    have e: "(h, v) \<in> edges G" using that adj by (simp add: edges_def)
    show ?thesis using reachable_edge [OF hr e] depth_edge [OF hr e] by simp
  qed
  have f2: "?d v = ?d h + 1" if "v \<in> set new" for v
  proof -
    have "v \<in> set ns" "v \<notin> V" using that sn by auto
    then show ?thesis using f1 [of v] i8 [of v] by force
  qed
  have f3: "?d h \<le> ?d v \<and> ?d v \<le> ?d h + 1" if "v \<in> set Q" for v
    using that i6 i7 [of v] i2 by auto
  have f4: "?d h \<le> ?d v \<and> ?d v \<le> ?d h + 1" if "v \<in> set Q'" for v
    using that f2 [of v] f3 [of v] Q' by auto
  have g1: "distinct Q'" using i1 i2 dn sn Q' by auto
  have g2: "set Q' \<subseteq> V'" using i2 sn Q' V' by auto
  have g3: "s \<in> V'" using i3 V' by simp
  have g4: "V' \<subseteq> reachable G s" using i4 f1 V' by auto
  have g5: "v \<in> V'" if "u \<in> V'" "u \<notin> set Q'" "(u, v) \<in> edges G" for u v
  proof (cases "u = h")
    case True
    then show ?thesis using that(3) adj V' by (simp add: edges_def)
  next
    case False
    have "u \<in> V" using that(1,2) V' Q' sn by auto
    moreover have "u \<notin> set (h # Q)" using False that(2) Q' by simp
    ultimately have "v \<in> V" using that(3) by (rule i5)
    then show ?thesis using V' by simp
  qed
  have g6: "sorted (map ?d Q')"
  proof -
    have "sorted (map ?d Q)" using i6 by simp
    moreover have "sorted (map ?d new)" using f2 by (intro sorted_map_const [of _ _ "?d h + 1"]) simp
    moreover have "\<forall>x \<in> set Q. \<forall>y \<in> set new. ?d x \<le> ?d y" using f2 f3 by auto
    ultimately show ?thesis unfolding Q' by (auto simp: sorted_append)
  qed
  have g7: "?d v \<le> ?d h + 1" if "v \<in> V'" for v
    using that V' i7 [of v] f1 [of v] by auto
  have g8: "w \<in> V'" if hd: "Q' = h' # Q''" and w: "w \<in> reachable G s" "?d w \<le> ?d h'" for h' Q'' w
  proof (cases "?d w \<le> ?d h")
    case True
    then show ?thesis using i8 [OF w(1)] V' by simp
  next
    case False
    have h': "?d h \<le> ?d h' \<and> ?d h' \<le> ?d h + 1" using f4 [of h'] hd by simp
    with False w(2) have dw: "?d w = Suc (?d h)" and dh': "?d h' = Suc (?d h)" by auto
    from w(1) dw obtain x where x: "x \<in> reachable G s" "?d x = ?d h" "(x, w) \<in> edges G"
      by (rule depth_pred)
    have "x \<in> V" using i8 [OF x(1)] x(2) by simp
    then have xv: "x \<in> V'" using V' by simp
    have "\<forall>y \<in> set Q'. ?d h' \<le> ?d y" using g6 hd by auto
    then have "x \<notin> set Q'" using x(2) dh' by auto
    with xv show ?thesis using x(3) by (rule g5)
  qed
  have g78: "\<forall>h' \<in> set (take 1 Q').
        (\<forall>v \<in> V'. ?d v \<le> ?d h' + 1) \<and> (\<forall>w \<in> reachable G s. ?d w \<le> ?d h' \<longrightarrow> w \<in> V')"
  proof (cases Q')
    case Nil
    then show ?thesis by simp
  next
    case (Cons h' Q'')
    have "?d h \<le> ?d h'" using f4 [of h'] Cons by simp
    then have "\<forall>v \<in> V'. ?d v \<le> ?d h' + 1" using g7 by fastforce
    moreover have "\<forall>w \<in> reachable G s. ?d w \<le> ?d h' \<longrightarrow> w \<in> V'" using g8 [OF Cons] by blast
    ultimately show ?thesis using Cons by simp
  qed
  show "bfs_inv G s V' Q'"
    unfolding bfs_inv_def using g1 g2 g3 g4 g5 g6 g78 by blast
  show "depth_closed G s V'"
    unfolding depth_closed_def
  proof (intro ballI)
    fix u w assume u: "u \<in> V'" and w: "w \<in> reachable G s - V'"
    have "\<not> ?d w \<le> ?d h" using i8 [of w] w V' by auto
    then show "?d u \<le> ?d w" using g7 [OF u] by simp
  qed
qed

lemma bfs_inv_final:
  assumes "bfs_inv G s V []"
  shows "V = reachable G s"
proof -
  from assms have s: "s \<in> V" and sub: "V \<subseteq> reachable G s"
    and cl: "\<And>u v. u \<in> V \<Longrightarrow> (u, v) \<in> edges G \<Longrightarrow> v \<in> V"
    unfolding bfs_inv_def by auto
  have "v \<in> V" if "(s, v) \<in> (edges G)\<^sup>*" for v
    using that by (induction rule: rtrancl_induct) (auto intro: s cl)
  then show ?thesis using sub by (auto simp: reachable_def)
qed

section \<open>Reasoning about the loop of the discovery stream\<close>

text \<open>
  An invariant \<open>I\<close> of the loop state (visited set and queue) that every iteration
  preserves gives a property \<open>P\<close> of the snapshots and of the way the stream ends.
\<close>

lemma neighbors_not_node: "n \<notin> set (nodes G) \<Longrightarrow> neighbors G n = Inl (NetworkXError n)"
  by (simp add: neighbors_def nodes_def map_of_eq_None_iff [symmetric])

lemma bfs_generator_loop_rule [consumes 1, case_names step empty raise yield]:
  assumes init: "I V Q"
    and step: "\<And>V h Q ns V' Q'. I V (h # Q) \<Longrightarrow> neighbors G h = Inr ns \<Longrightarrow>
        visit_neighbors ns V Q = (V', Q') \<Longrightarrow> I V' Q'"
    and empty: "\<And>V. I V [] \<Longrightarrow> P V [] [] None"
    and raise: "\<And>V h Q e. I V (h # Q) \<Longrightarrow> neighbors G h = Inl e \<Longrightarrow> P V (h # Q) [] (Some e)"
    and yield: "\<And>V h Q ns V' Q' snaps r. I V (h # Q) \<Longrightarrow> neighbors G h = Inr ns \<Longrightarrow>
        visit_neighbors ns V Q = (V', Q') \<Longrightarrow> bfs_generator_loop G V' Q' = (snaps, r) \<Longrightarrow>
        P V' Q' snaps r \<Longrightarrow> P V (h # Q) (V' # snaps) r"
  shows "P V Q (fst (bfs_generator_loop G V Q)) (snd (bfs_generator_loop G V Q))"
  using init step empty raise yield
proof (induction G V Q rule: bfs_generator_loop.induct)
  case (1 G visited)
  then show ?case by simp
next
  case (2 G visited node queue)
  note init = "2.prems"(1) and step = "2.prems"(2) and empty = "2.prems"(3)
    and raise = "2.prems"(4) and yield = "2.prems"(5)
  show ?case
  proof (cases "neighbors G node")
    case (Inl e)
    then show ?thesis using raise [OF init Inl] by simp
  next
    case (Inr ns)
    obtain V' Q' where vn: "visit_neighbors ns visited queue = (V', Q')"
      by (cases "visit_neighbors ns visited queue")
    obtain snaps r where run: "bfs_generator_loop G V' Q' = (snaps, r)"
      by (cases "bfs_generator_loop G V' Q'")
    have "I V' Q'" using init Inr vn by (rule step)
    then have "P V' Q' (fst (bfs_generator_loop G V' Q')) (snd (bfs_generator_loop G V' Q'))"
      using step empty raise yield by (rule "2.IH" [OF Inr vn [symmetric]])
    then have "P V' Q' snaps r" using run by simp
    then have "P visited (node # queue) (V' # snaps) r"
      using yield [OF init Inr vn run] by simp
    then show ?thesis using Inr vn run by simp
  qed
qed


lemma bfs_generator_loop_snapshots:
  assumes "bfs_inv G s V Q" and "bfs_generator_loop G V Q = (snaps, r)"
  shows "(\<forall>S \<in> set snaps. V \<subseteq> S \<and> S \<subseteq> reachable G s \<and> depth_closed G s S) \<and>
         sorted_wrt (\<subseteq>) snaps \<and> (r = None \<longrightarrow> last (V # snaps) = reachable G s)"
proof -
  let ?P = "\<lambda>V (Q :: node list) snaps (r :: error option).
      (\<forall>S \<in> set snaps. V \<subseteq> S \<and> S \<subseteq> reachable G s \<and> depth_closed G s S) \<and>
      sorted_wrt (\<subseteq>) snaps \<and> (r = None \<longrightarrow> last (V # snaps) = reachable G s)"
  from assms(1)
  have "?P V Q (fst (bfs_generator_loop G V Q)) (snd (bfs_generator_loop G V Q))"
  proof (induction rule: bfs_generator_loop_rule)
    case (step V h Q ns V' Q')
    then show ?case by (rule bfs_inv_step(1))
  next
    case (empty V)
    then show ?case by (simp add: bfs_inv_final)
  next
    case (raise V h Q e)
    then show ?case by simp
  next
    case (yield V h Q ns V' Q' snaps r)
    have inv': "bfs_inv G s V' Q'" and dc: "depth_closed G s V'"
      using yield(1-3) by (rule bfs_inv_step)+
    have sub: "V \<subseteq> V'" using yield(3) by (auto elim: visit_neighbors_cases)
    have reach: "V' \<subseteq> reachable G s" using inv' unfolding bfs_inv_def by blast
    from yield(5) have ih1: "\<forall>S \<in> set snaps. V' \<subseteq> S \<and> S \<subseteq> reachable G s \<and> depth_closed G s S"
      and ih2: "sorted_wrt (\<subseteq>) snaps" and ih3: "r = None \<longrightarrow> last (V' # snaps) = reachable G s"
      by blast+
    have "\<forall>S \<in> set (V' # snaps). V \<subseteq> S \<and> S \<subseteq> reachable G s \<and> depth_closed G s S"
      using ih1 sub reach dc by auto
    moreover have "sorted_wrt (\<subseteq>) (V' # snaps)" using ih1 ih2 by simp
    moreover have "r = None \<longrightarrow> last (V # V' # snaps) = reachable G s" using ih3 by simp
    ultimately show ?case by blast
  qed
  then show ?thesis using assms(2) by simp
qed

lemma bfs_generator_loop_count:
  assumes "distinct Q \<and> set Q \<subseteq> V \<and> finite V" and "bfs_generator_loop G V Q = (snaps, None)"
  shows "card (last (V # snaps)) + length Q = card V + length snaps"
proof -
  let ?I = "\<lambda>V Q. distinct Q \<and> set Q \<subseteq> V \<and> finite V"
  let ?P = "\<lambda>V (Q :: node list) (snaps :: node set list) (r :: error option).
      r = None \<longrightarrow> card (last (V # snaps)) + length Q = card V + length snaps"
  from assms(1)
  have "?P V Q (fst (bfs_generator_loop G V Q)) (snd (bfs_generator_loop G V Q))"
  proof (induction rule: bfs_generator_loop_rule [where I = ?I])
    case (step V h Q ns V' Q')
    from step(3) obtain new where "V' = V \<union> set ns" "Q' = Q @ new" "distinct new" "set new = set ns - V"
      by (rule visit_neighbors_cases)
    with step(1) show ?case by auto
  next
    case (empty V)
    then show ?case by simp
  next
    case (raise V h Q e)
    then show ?case by simp
  next
    case (yield V h Q ns V' Q' snaps r)
    from yield(3) obtain new where new: "V' = V \<union> set ns" "Q' = Q @ new" "distinct new" "set new = set ns - V"
      by (rule visit_neighbors_cases)
    have "V' = V \<union> set new" using new by auto
    moreover have "V \<inter> set new = {}" using new by auto
    ultimately have "card V' = card V + length new"
      using yield(1) new(3) by (simp add: card_Un_disjoint distinct_card)
    then show ?case using yield(5) new(2) by auto
  qed
  then show ?thesis using assms(2) by simp
qed

lemma bfs_generator_loop_closed:
  assumes "closed G" and "set Q \<subseteq> set (nodes G)"
  shows "snd (bfs_generator_loop G V Q) = None"
proof -
  let ?I = "\<lambda>(V :: node set) Q. set Q \<subseteq> set (nodes G)"
  let ?P = "\<lambda>(V :: node set) (Q :: node list) (snaps :: node set list) (r :: error option). r = None"
  from assms(2)
  show "?P V Q (fst (bfs_generator_loop G V Q)) (snd (bfs_generator_loop G V Q))"
  proof (induction rule: bfs_generator_loop_rule [where I = ?I])
    case (step V h Q ns V' Q')
    from step(3) obtain new where new: "Q' = Q @ new" "set new = set ns - V"
      by (rule visit_neighbors_cases)
    have "h \<in> set (nodes G)" using step(1) by simp
    then have "set (adj G h) \<subseteq> set (nodes G)" using assms(1) by (auto simp: closed_def)
    then have "set ns \<subseteq> set (nodes G)" using neighbors_adj [OF step(2)] by simp
    then show ?case using new step(1) by auto
  next
    case (empty V)
    then show ?case by simp
  next
    case (raise V h Q e)
    then show ?case using neighbors_Inl by fastforce
  next
    case (yield V h Q ns V' Q' snaps r)
    then show ?case by simp
  qed
qed

section \<open>The histogram loop and the stream loop run in step\<close>

text \<open>
  Both loops pop the same nodes in the same order: the queue of \<^verbatim>\<open>bfs_spread\<close> is the
  queue of \<^verbatim>\<open>bfs_generator\<close> with a depth attached to each node. Every iteration raises
  one count of the histogram by one.
\<close>

lemma sum_list_bump:
  "sum_list (map snd (AList.update k (get al k 0 + 1) al)) = sum_list (map snd al) + 1"
  by (induction al) (auto simp: get_def)

lemma values_update:
  "c \<in> set (map snd (AList.update k v al)) \<Longrightarrow> c = v \<or> c \<in> set (map snd al)"
  by (induction al) (auto split: if_splits)

lemma spread_neighbors_fst: "fst (spread_neighbors ns d V q) = fst (visit_neighbors ns V (map fst q))"
  by (simp add: spread_neighbors_eq)

lemma spread_neighbors_snd:
  "map fst (snd (spread_neighbors ns d V q)) = snd (visit_neighbors ns V (map fst q))"
proof -
  obtain new where "snd (visit_neighbors ns V (map fst q)) = map fst q @ new"
    using visit_neighbors_snd by blast
  then show ?thesis by (simp add: spread_neighbors_eq comp_def)
qed

lemma bfs_spread_loop_generator:
  assumes "bfs_generator_loop G V (map fst q) = (snaps, r)"
  shows "case r of
           None \<Rightarrow> \<exists>levels'. bfs_spread_loop G V q levels = Inr levels' \<and>
                     sum_list (map snd levels') = sum_list (map snd levels) + length snaps
         | Some e \<Rightarrow> bfs_spread_loop G V q levels = Inl e"
proof -
  let ?P = "\<lambda>V Q (snaps :: node set list) r. \<forall>q levels. map fst q = Q \<longrightarrow>
      (case r of
         None \<Rightarrow> \<exists>levels'. bfs_spread_loop G V q levels = Inr levels' \<and>
                   sum_list (map snd levels') = sum_list (map snd levels) + length snaps
       | Some e \<Rightarrow> bfs_spread_loop G V q levels = Inl e)"
  from TrueI
  have "?P V (map fst q) (fst (bfs_generator_loop G V (map fst q)))
          (snd (bfs_generator_loop G V (map fst q)))"
  proof (induction rule: bfs_generator_loop_rule [where I = "\<lambda>V Q. True" and P = ?P])
    case (step V h Q ns V' Q')
    show ?case by simp
  next
    case (empty V)
    show ?case by simp
  next
    case (raise V h Q e)
    then show ?case by auto
  next
    case (yield V h Q ns V' Q' snaps r)
    show ?case
    proof (intro allI impI)
      fix q :: "(node \<times> nat) list" and levels :: histogram
      assume "map fst q = h # Q"
      then obtain d q0 where q: "q = (h, d) # q0" and q0: "map fst q0 = Q" by auto
      let ?L = "AList.update d (get levels d 0 + 1) levels"
      obtain V1 q1 where sp: "spread_neighbors ns d V q0 = (V1, q1)"
        by (cases "spread_neighbors ns d V q0")
      have "V1 = V'" using sp yield(3) q0 spread_neighbors_fst [of ns d V q0] by simp
      moreover have q1: "map fst q1 = Q'" using sp yield(3) q0 spread_neighbors_snd [of ns d V q0] by simp
      ultimately have unfold: "bfs_spread_loop G V q levels = bfs_spread_loop G V' q1 ?L"
        using q yield(2) sp by simp
      show "case r of
           None \<Rightarrow> \<exists>levels'. bfs_spread_loop G V q levels = Inr levels' \<and>
                     sum_list (map snd levels') = sum_list (map snd levels) + length (V' # snaps)
         | Some e \<Rightarrow> bfs_spread_loop G V q levels = Inl e"
        using yield(5) [rule_format, OF q1, of ?L] unfold
        using sum_list_bump [of d levels] by (cases r) auto
    qed
  qed
  then have "?P V (map fst q) snaps r" unfolding assms fst_conv snd_conv .
  then show ?thesis by blast
qed

definition hist_inv :: "(node \<times> nat) list \<Rightarrow> histogram \<Rightarrow> bool" where
  "hist_inv Q L \<longleftrightarrow>
     sorted (map snd Q) \<and> (\<forall>x \<in> set (map snd Q). x \<le> length L \<and> length L \<le> x + 1) \<and>
     map fst L = [0..<length L] \<and> (\<forall>c \<in> set (map snd L). 1 \<le> c)"

lemma hist_inv_step:
  assumes inv: "hist_inv ((h, d) # Q) L" and sp: "spread_neighbors ns d V Q = (V', Q')"
  shows "hist_inv Q' (AList.update d (get L d 0 + 1) L)"
proof -
  let ?L = "AList.update d (get L d 0 + 1) L"
  from inv have s: "sorted (map snd ((h, d) # Q))"
    and b: "\<forall>x \<in> set (map snd ((h, d) # Q)). x \<le> length L \<and> length L \<le> x + 1"
    and k: "map fst L = [0..<length L]" and c: "\<forall>c \<in> set (map snd L). 1 \<le> c"
    unfolding hist_inv_def by blast+
  from sp obtain new where Q': "Q' = Q @ map (\<lambda>n. (n, d + 1)) new"
    by (rule spread_neighbors_cases)
  have dL: "d \<le> length L" "length L \<le> d + 1" using b by auto
  have keys: "map fst ?L = [0..<length ?L] \<and> length ?L = d + 1"
  proof (cases "d < length L")
    case True
    then have "d \<in> set (map fst L)" using k by simp
    then have "map fst ?L = map fst L" by (simp add: update_keys)
    moreover from this have "length ?L = length L" using length_map by metis
    ultimately show ?thesis using k True dL by simp
  next
    case False
    then have d: "d = length L" using dL by simp
    then have "d \<notin> set (map fst L)" using k by simp
    then have e: "map fst ?L = map fst L @ [d]" by (simp add: update_keys)
    then have "length (map fst ?L) = length L + 1" by simp
    then have "length ?L = length L + 1" by simp
    with e k d show ?thesis by simp
  qed
  have vals: "\<forall>c \<in> set (map snd ?L). 1 \<le> c"
    using values_update [of _ d "get L d 0 + 1" L] c by fastforce
  have rest: "\<forall>x \<in> set (map snd Q). d \<le> x \<and> x \<le> d + 1" using s b dL by auto
  have "sorted (map (\<lambda>x. Suc d) new)" by (rule sorted_map_const [of _ _ "Suc d"]) simp
  then have "sorted (map snd Q')" using s rest unfolding Q' by (auto simp: sorted_append comp_def)
  moreover have "\<forall>x \<in> set (map snd Q'). x \<le> length ?L \<and> length ?L \<le> x + 1"
  proof
    fix x assume "x \<in> set (map snd Q')"
    then have x: "x \<in> set (map snd Q) \<or> x = d + 1" unfolding Q' by auto
    have "\<forall>y \<in> set (map snd Q). d \<le> y \<and> y \<le> length L \<and> length L \<le> y + 1" using rest b by auto
    with x keys dL show "x \<le> length ?L \<and> length ?L \<le> x + 1" by auto
  qed
  ultimately show ?thesis unfolding hist_inv_def using keys vals by blast
qed

lemma bfs_spread_loop_levels:
  assumes "hist_inv Q L" and "bfs_spread_loop G V Q L = Inr L'"
  shows "map fst L' = [0..<length L'] \<and> (\<forall>c \<in> set (map snd L'). 1 \<le> c) \<and> length L \<le> length L'"
  using assms
proof (induction G V Q L rule: bfs_spread_loop.induct)
  case (1 G visited levels)
  then show ?case by (simp add: hist_inv_def)
next
  case (2 G visited node depth queue levels)
  let ?L = "AList.update depth (get levels depth 0 + 1) levels"
  from "2.prems"(2) obtain ns where nb: "neighbors G node = Inr ns"
    by (cases "neighbors G node") (auto simp: Let_def)
  obtain V' Q' where sp: "spread_neighbors ns depth visited queue = (V', Q')"
    by (cases "spread_neighbors ns depth visited queue")
  have run: "bfs_spread_loop G V' Q' ?L = Inr L'" using "2.prems"(2) nb sp by simp
  have inv: "hist_inv Q' ?L" using "2.prems"(1) sp by (rule hist_inv_step)
  have "map fst L' = [0..<length L'] \<and> (\<forall>c \<in> set (map snd L'). 1 \<le> c) \<and> length ?L \<le> length L'"
    using "2.IH" [OF refl nb sp [symmetric] inv run] .
  moreover have "length levels \<le> length ?L"
    using length_map [of fst ?L] length_map [of fst levels] by (simp add: update_keys split: if_splits)
  ultimately show ?case by simp
qed

section \<open>Results about the two traversals\<close>

lemma bfs_generator_nonempty:
  assumes "start \<in> set (nodes G)"
  shows "fst (bfs_generator G start) \<noteq> []"
  using neighbors_node [OF assms]
  by (simp add: bfs_generator_def split: prod.splits)

lemma bfs_generator_closed:
  assumes "closed G" and "start \<in> set (nodes G)"
  shows "snd (bfs_generator G start) = None"
  unfolding bfs_generator_def using assms by (intro bfs_generator_loop_closed) simp_all

lemma bfs_spread_levels:
  assumes "bfs_spread G = Inr L'"
  shows "L' \<noteq> [] \<and> map fst L' = [0..<length L'] \<and> (\<forall>c \<in> set (map snd L'). 1 \<le> c)"
proof -
  let ?L = "AList.update (0::nat) (get [] 0 0 + 1) []"
  from assms obtain ns where nb: "neighbors G 0 = Inr ns"
    by (cases "neighbors G 0") (auto simp: bfs_spread_def Let_def)
  obtain V' Q' where sp: "spread_neighbors ns 0 {0} [] = (V', Q')"
    by (cases "spread_neighbors ns 0 {0} []")
  have run: "bfs_spread_loop G V' Q' ?L = Inr L'"
    using assms nb sp by (simp add: bfs_spread_def)
  have "hist_inv [(0, 0)] []" by (simp add: hist_inv_def)
  then have "hist_inv Q' ?L" using sp by (rule hist_inv_step)
  then have "map fst L' = [0..<length L'] \<and> (\<forall>c \<in> set (map snd L'). 1 \<le> c) \<and> length ?L \<le> length L'"
    using run by (rule bfs_spread_loop_levels)
  then show ?thesis by auto
qed

lemma bfs_spread_total:
  assumes "bfs_generator G 0 = (snaps, None)"
  shows "\<exists>levels. bfs_spread G = Inr levels \<and> sum_list (map snd levels) = length snaps"
  using bfs_spread_loop_generator [of G "{0}" "[(0, 0)]" snaps None "[]"] assms
  by (simp add: bfs_generator_def bfs_spread_def)

text \<open>
  The ring of eight nodes in which every node is joined to its two ring neighbours, with
  the neighbour lists in the order in which the edges \<open>(0,1), (1,2), ..., (7,0)\<close> are added.
\<close>

definition ring8 :: graph where
  "ring8 = [(0, [1, 7]), (1, [0, 2]), (2, [1, 3]), (3, [2, 4]), (4, [3, 5]), (5, [4, 6]),
            (6, [5, 7]), (7, [6, 0])]"

lemma ring8_closed: "closed ring8"
  by (simp add: closed_def nodes_def adj_def ring8_def)

lemma ring8_start: "0 \<in> set (nodes ring8)"
  by (simp add: nodes_def ring8_def)

lemma reachable_nodes:
  assumes "closed G" and "s \<in> set (nodes G)"
  shows "reachable G s \<subseteq> set (nodes G)"
proof
  fix v assume "v \<in> reachable G s"
  then have "(s, v) \<in> (edges G)\<^sup>*" by (simp add: reachable_def)
  then show "v \<in> set (nodes G)"
  proof (induction rule: rtrancl_induct)
    case base
    then show ?case by (rule assms(2))
  next
    case (step y z)
    then show ?case using assms(1) by (auto simp: edges_def closed_def)
  qed
qed

lemma bfs_inv_head_least:
  assumes "bfs_inv G s V (h # Q)" and "x \<in> reachable G s" and "x \<notin> V \<or> x \<in> set Q"
  shows "depth G s h \<le> depth G s x"
proof -
  from assms(1) have srt: "sorted (map (depth G s) (h # Q))"
    and near: "\<forall>h' \<in> set (take 1 (h # Q)). \<forall>w \<in> reachable G s. depth G s w \<le> depth G s h' \<longrightarrow> w \<in> V"
    unfolding bfs_inv_def by blast+
  from assms(3) show ?thesis
  proof
    assume "x \<notin> V"
    then have "\<not> depth G s x \<le> depth G s h" using near assms(2) by auto
    then show ?thesis by simp
  next
    assume "x \<in> set Q"
    then show ?thesis using srt by auto
  qed
qed

lemma bfs_generator_loop_order:
  assumes "bfs_inv G s V Q" and "bfs_generator_loop G V Q = (snaps, None)"
  shows "\<exists>order. length order = length snaps \<and> take (length Q) order = Q \<and> distinct order \<and>
           set order = set Q \<union> (last (V # snaps) - V) \<and> sorted (map (depth G s) order) \<and>
           (\<forall>i < length snaps. snaps ! i = V \<union> (\<Union>n \<in> set (take (Suc i) order). set (adj G n)))"
proof -
  let ?P = "\<lambda>V Q snaps (r :: error option). r = None \<longrightarrow>
      (\<exists>order. length order = length snaps \<and> take (length Q) order = Q \<and> distinct order \<and>
           set order = set Q \<union> (last (V # snaps) - V) \<and> sorted (map (depth G s) order) \<and>
           (\<forall>i < length snaps. snaps ! i = V \<union> (\<Union>n \<in> set (take (Suc i) order). set (adj G n))))"
  have "?P V Q (fst (bfs_generator_loop G V Q)) (snd (bfs_generator_loop G V Q))"
  proof (rule bfs_generator_loop_rule [where P = ?P and I = "bfs_inv G s", OF assms(1)], goal_cases)
    case (1 V h Q ns V' Q')
    then show ?case by (rule bfs_inv_step(1))
  next
    case (2 V)
    show ?case by simp
  next
    case (3 V h Q e)
    show ?case by simp
  next
    case (4 V h Q ns V' Q' snaps r)
    note yield = 4
    show ?case
    proof
      assume r: "r = None"
      let ?L = "last (V' # snaps)"
      from yield(5) r obtain order where o: "length order = length snaps"
        "take (length Q') order = Q'" "distinct order" "set order = set Q' \<union> (?L - V')"
        "sorted (map (depth G s) order)"
        "\<forall>i < length snaps. snaps ! i = V' \<union> (\<Union>n \<in> set (take (Suc i) order). set (adj G n))"
        by blast
      from yield(3) obtain new where new: "V' = V \<union> set ns" "Q' = Q @ new" "distinct new"
        "set new = set ns - V"
        by (rule visit_neighbors_cases)
      have adj: "adj G h = ns" using yield(2) by (rule neighbors_adj)
      have inv': "bfs_inv G s V' Q'" using yield(1-3) by (rule bfs_inv_step(1))
      have hQ: "distinct (h # Q)" "set (h # Q) \<subseteq> V" using yield(1) unfolding bfs_inv_def by blast+
      have V'r: "V' \<subseteq> reachable G s" using inv' unfolding bfs_inv_def by blast
      have snaps: "\<forall>S \<in> set snaps. V' \<subseteq> S \<and> S \<subseteq> reachable G s"
        using bfs_generator_loop_snapshots [OF inv' yield(4)] by blast
      have L: "V' \<subseteq> ?L \<and> ?L \<subseteq> reachable G s"
        using snaps V'r by (cases "snaps = []") (simp_all add: last_in_set)
      have "take (length Q) order = take (length Q) (take (length Q') order)"
        using new(2) by (simp add: min_def)
      also have "\<dots> = take (length Q) Q'" by (simp only: o(2))
      also have "\<dots> = Q" using new(2) by simp
      finally have tk: "take (length Q) order = Q" .
      have Q'V': "set Q' \<subseteq> V'" using new hQ by auto
      have "set order \<subseteq> reachable G s" using o(4) Q'V' V'r L by blast
      moreover have "\<forall>x \<in> set order. x \<notin> V \<or> x \<in> set Q" using o(4) new by auto
      ultimately have least: "\<forall>x \<in> set order. depth G s h \<le> depth G s x"
        using bfs_inv_head_least [OF yield(1)] by blast
      have "h \<notin> set order" using o(4) new hQ by auto
      then have d: "distinct (h # order)" using o(3) by simp
      have st: "set (h # order) = set (h # Q) \<union> (last (V # V' # snaps) - V)"
        using o(4) new L by auto
      have sr: "sorted (map (depth G s) (h # order))" using o(5) least by simp
      have sn: "(V' # snaps) ! i = V \<union> (\<Union>n \<in> set (take (Suc i) (h # order)). set (adj G n))"
        if "i < length (V' # snaps)" for i
      proof (cases i)
        case 0
        then show ?thesis using new(1) adj by simp
      next
        case (Suc k)
        then have "k < length snaps" using that by simp
        then have "snaps ! k = V' \<union> (\<Union>n \<in> set (take (Suc k) order). set (adj G n))"
          using o(6) by simp
        then show ?thesis using Suc new(1) adj by auto
      qed
      have "length (h # order) = length (V' # snaps) \<and> take (length (h # Q)) (h # order) = h # Q"
        using o(1) tk by simp
      with d st sr sn show "\<exists>order. length order = length (V' # snaps) \<and>
           take (length (h # Q)) order = h # Q \<and> distinct order \<and>
           set order = set (h # Q) \<union> (last (V # V' # snaps) - V) \<and>
           sorted (map (depth G s) order) \<and>
           (\<forall>i < length (V' # snaps).
               (V' # snaps) ! i = V \<union> (\<Union>n \<in> set (take (Suc i) order). set (adj G n)))"
        by blast
    qed
  qed
  then show ?thesis using assms(2) by simp
qed

lemma bfs_generator_isolated:
  assumes "start \<in> set (nodes G)" and "adj G start = []"
  shows "bfs_generator G start = ([{start}], None)"
  using neighbors_node [OF assms(1)] assms(2) by (simp add: bfs_generator_def)

text \<open>
  Two small graphs: a path \<open>0 - 1 - 2\<close> beside an isolated node \<open>3\<close>, and a star whose
  centre \<open>0\<close> has the neighbours \<open>1\<close> and \<open>2\<close>.
\<close>

definition path3 :: graph where
  "path3 = [(0, [1]), (1, [0, 2]), (2, [1]), (3, [])]"

lemma path3_closed: "closed path3"
  by (simp add: closed_def nodes_def adj_def path3_def)

lemma path3_undirected: "undirected path3"
  by (simp add: undirected_def nodes_def adj_def path3_def)

lemma path3_start: "1 \<in> set (nodes path3)"
  by (simp add: nodes_def path3_def)

definition star3 :: graph where
  "star3 = [(0, [1, 2]), (1, [0]), (2, [0])]"

text \<open>
  The reading of the stream in which every snapshot adds exactly one node to the one before.
\<close>

definition one_discovery_each :: "node set list \<Rightarrow> bool" where
  "one_discovery_each snaps = (\<forall>i. Suc i < length snaps \<longrightarrow> card (snaps ! Suc i - snaps ! i) = 1)"

lemma star3_closed: "closed star3"
  by (simp add: closed_def nodes_def adj_def star3_def)

lemma star3_start: "0 \<in> set (nodes star3)"
  by (simp add: nodes_def star3_def)

section \<open>The discovery stream with set objects in a store\<close>

text \<open>
  \<^verbatim>\<open>visited\<close> is one mutable set object: \<^verbatim>\<open>visited.add\<close> changes it in place, and
  \<^verbatim>\<open>yield visited.copy()\<close> hands a new set object to the consumer. To speak about what
  the consumer holds while the generator goes on, set objects live in a store and are
  named by references; a new object gets the next unused reference.
\<close>

type_synonym ref = nat

record store =
  objects :: "ref \<Rightarrow> node set"
  fresh :: ref

definition set_new :: "store \<Rightarrow> node set \<Rightarrow> ref \<times> store" where
  "set_new \<sigma> S = (fresh \<sigma>, \<sigma>\<lparr>objects := (objects \<sigma>)(fresh \<sigma> := S), fresh := Suc (fresh \<sigma>)\<rparr>)"

definition set_add :: "store \<Rightarrow> ref \<Rightarrow> node \<Rightarrow> store" where
  "set_add \<sigma> a n = \<sigma>\<lparr>objects := (objects \<sigma>)(a := insert n (objects \<sigma> a))\<rparr>"

definition set_copy :: "store \<Rightarrow> ref \<Rightarrow> ref \<times> store" where
  "set_copy \<sigma> a = set_new \<sigma> (objects \<sigma> a)"

fun visit_neighbors_store :: "node list \<Rightarrow> ref \<Rightarrow> store \<Rightarrow> node list \<Rightarrow> store \<times> node list" where
  "visit_neighbors_store [] visited \<sigma> queue = (\<sigma>, queue)"
| "visit_neighbors_store (neighbor # ns) visited \<sigma> queue =
     (if neighbor \<notin> objects \<sigma> visited
      then visit_neighbors_store ns visited (set_add \<sigma> visited neighbor) (queue @ [neighbor])
      else visit_neighbors_store ns visited \<sigma> queue)"

lemma visit_neighbors_store_objects:
  "objects (fst (visit_neighbors_store ns a \<sigma> Q)) =
     (objects \<sigma>)(a := fst (visit_neighbors ns (objects \<sigma> a) Q))"
  by (induction ns a \<sigma> Q rule: visit_neighbors_store.induct) (auto simp: set_add_def fun_eq_iff)

lemma visit_neighbors_store_fresh: "fresh (fst (visit_neighbors_store ns a \<sigma> Q)) = fresh \<sigma>"
  by (induction ns a \<sigma> Q rule: visit_neighbors_store.induct) (simp_all add: set_add_def)

lemma visit_neighbors_store_queue:
  "snd (visit_neighbors_store ns a \<sigma> Q) = snd (visit_neighbors ns (objects \<sigma> a) Q)"
  by (induction ns a \<sigma> Q rule: visit_neighbors_store.induct) (simp_all add: set_add_def)

text \<open>
  The loop of the generator: the result is the list of the references yielded, the store
  when the generator ended, and how it ended.
\<close>

function bfs_generator_store_loop ::
  "graph \<Rightarrow> ref \<Rightarrow> store \<Rightarrow> node list \<Rightarrow> (ref list \<times> store) \<times> error option" where
  "bfs_generator_store_loop G visited \<sigma> [] = (([], \<sigma>), None)"
| "bfs_generator_store_loop G visited \<sigma> (node # queue) =
     (case neighbors G node of
        Inl e \<Rightarrow> (([], \<sigma>), Some e)
      | Inr ns \<Rightarrow>
          (case visit_neighbors_store ns visited \<sigma> queue of
             (\<sigma>', queue') \<Rightarrow>
               (case set_copy \<sigma>' visited of
                  (snapshot, \<sigma>'') \<Rightarrow>
                    (case bfs_generator_store_loop G visited \<sigma>'' queue' of
                       ((snapshots, \<sigma>\<^sub>e), ending) \<Rightarrow> ((snapshot # snapshots, \<sigma>\<^sub>e), ending)))))"
  by pat_completeness auto

lemma set_copy_objects: "set_copy \<sigma> a = (c, \<sigma>') \<Longrightarrow> objects \<sigma>' a = objects \<sigma> a"
  by (auto simp: set_copy_def set_new_def)

termination bfs_generator_store_loop
proof (relation "measures [\<lambda>(G, a, \<sigma>, Q). card (labels G - objects \<sigma> a), \<lambda>(G, a, \<sigma>, Q). length Q]")
  show "wf (measures [\<lambda>(G, a, \<sigma>, Q). card (labels G - objects \<sigma> a),
      \<lambda>(G, a, \<sigma> :: store, Q). length (Q :: node list)])"
    by simp
next
  fix G a n queue ns c and \<sigma> \<sigma>' \<sigma>'' :: store and queue' :: "node list"
  assume nb: "neighbors G n = Inr ns"
    and "(\<sigma>', queue') = visit_neighbors_store ns a \<sigma> queue"
    and "(c, \<sigma>'') = set_copy \<sigma>' a"
  then have vn: "visit_neighbors_store ns a \<sigma> queue = (\<sigma>', queue')" and cp: "set_copy \<sigma>' a = (c, \<sigma>'')"
    by simp_all
  have "visit_neighbors ns (objects \<sigma> a) queue = (objects \<sigma>'' a, queue')"
    using set_copy_objects [OF cp] visit_neighbors_store_objects [of ns a \<sigma> queue]
      visit_neighbors_store_queue [of ns a \<sigma> queue] vn
    by (simp add: prod_eq_iff)
  then show "((G, a, \<sigma>'', queue'), (G, a, \<sigma>, n # queue))
      \<in> measures [\<lambda>(G, a, \<sigma>, Q). card (labels G - objects \<sigma> a), \<lambda>(G, a, \<sigma>, Q). length Q]"
    using bfs_step_decreases [OF nb, of "objects \<sigma> a" queue "objects \<sigma>'' a" queue'] by auto
qed

text \<open>
  \<^verbatim>\<open>bfs_generator(G, start)\<close> called in the store \<open>\<sigma>\<close>: \<^verbatim>\<open>set([start])\<close> makes the
  visited set a new object.
\<close>

definition bfs_generator_store ::
  "store \<Rightarrow> graph \<Rightarrow> node \<Rightarrow> (ref list \<times> store) \<times> error option" where
  "bfs_generator_store \<sigma> G start =
     (case set_new \<sigma> {start} of (visited, \<sigma>') \<Rightarrow> bfs_generator_store_loop G visited \<sigma>' [start])"

lemma bfs_generator_store_loop_pure:
  assumes "a < fresh \<sigma>" and "bfs_generator_store_loop G a \<sigma> Q = ((refs, \<sigma>\<^sub>e), r)"
  shows "map (objects \<sigma>\<^sub>e) refs = fst (bfs_generator_loop G (objects \<sigma> a) Q) \<and>
         r = snd (bfs_generator_loop G (objects \<sigma> a) Q) \<and>
         distinct refs \<and> (\<forall>x \<in> set refs. fresh \<sigma> \<le> x) \<and>
         (\<forall>b < fresh \<sigma>. b \<noteq> a \<longrightarrow> objects \<sigma>\<^sub>e b = objects \<sigma> b)"
  using assms
proof (induction G a \<sigma> Q arbitrary: refs \<sigma>\<^sub>e r rule: bfs_generator_store_loop.induct)
  case (1 G visited \<sigma>)
  then show ?case by simp
next
  case (2 G a \<sigma> node queue)
  show ?case
  proof (cases "neighbors G node")
    case (Inl e)
    with "2.prems" show ?thesis by auto
  next
    case (Inr ns)
    obtain \<sigma>1 Q' where vn: "visit_neighbors_store ns a \<sigma> queue = (\<sigma>1, Q')"
      by (cases "visit_neighbors_store ns a \<sigma> queue")
    obtain c \<sigma>2 where cp: "set_copy \<sigma>1 a = (c, \<sigma>2)" by (cases "set_copy \<sigma>1 a")
    obtain refs' \<sigma>3 r' where run: "bfs_generator_store_loop G a \<sigma>2 Q' = ((refs', \<sigma>3), r')"
      by (metis prod.exhaust)
    let ?V' = "fst (visit_neighbors ns (objects \<sigma> a) queue)"
    have s1: "objects \<sigma>1 = (objects \<sigma>)(a := ?V')" and f1: "fresh \<sigma>1 = fresh \<sigma>"
      and Q': "Q' = snd (visit_neighbors ns (objects \<sigma> a) queue)"
      using vn visit_neighbors_store_objects [of ns a \<sigma> queue]
        visit_neighbors_store_fresh [of ns a \<sigma> queue] visit_neighbors_store_queue [of ns a \<sigma> queue]
      by simp_all
    have c: "c = fresh \<sigma>" and o2: "objects \<sigma>2 = (objects \<sigma>1)(c := ?V')" and f2: "fresh \<sigma>2 = Suc (fresh \<sigma>)"
      using cp s1 f1 by (auto simp: set_copy_def set_new_def)
    have ca: "c \<noteq> a" using c "2.prems"(1) by simp
    have V': "objects \<sigma>2 a = ?V'" using o2 s1 ca by simp
    have res: "refs = c # refs'" "\<sigma>\<^sub>e = \<sigma>3" "r = r'"
      using "2.prems"(2) Inr vn cp run by simp_all
    have pure: "bfs_generator_loop G (objects \<sigma> a) (node # queue) =
        (?V' # fst (bfs_generator_loop G ?V' Q'), snd (bfs_generator_loop G ?V' Q'))"
      using Inr Q' by (simp split: prod.splits)
    have "a < fresh \<sigma>2" using f2 "2.prems"(1) by simp
    then have ih: "map (objects \<sigma>3) refs' = fst (bfs_generator_loop G (objects \<sigma>2 a) Q') \<and>
         r' = snd (bfs_generator_loop G (objects \<sigma>2 a) Q') \<and>
         distinct refs' \<and> (\<forall>x \<in> set refs'. fresh \<sigma>2 \<le> x) \<and>
         (\<forall>b < fresh \<sigma>2. b \<noteq> a \<longrightarrow> objects \<sigma>3 b = objects \<sigma>2 b)"
      using run by (rule "2.IH" [OF Inr vn [symmetric] cp [symmetric]])
    then have i1: "map (objects \<sigma>3) refs' = fst (bfs_generator_loop G ?V' Q')"
      and i2: "r' = snd (bfs_generator_loop G ?V' Q')" and i3: "distinct refs'"
      and i4: "\<forall>x \<in> set refs'. Suc c \<le> x"
      and i5: "\<forall>b < Suc c. b \<noteq> a \<longrightarrow> objects \<sigma>3 b = objects \<sigma>2 b"
      using V' f2 c by simp_all
    have "objects \<sigma>3 c = ?V'" using i5 ca o2 by simp
    then have g1: "map (objects \<sigma>\<^sub>e) refs = fst (bfs_generator_loop G (objects \<sigma> a) (node # queue))"
      using i1 res pure by simp
    have g2: "r = snd (bfs_generator_loop G (objects \<sigma> a) (node # queue))"
      using i2 res pure by simp
    have g3: "distinct refs" using i3 i4 res by auto
    have g4: "\<forall>x \<in> set refs. fresh \<sigma> \<le> x" using i4 res c by auto
    have g5: "\<forall>b < fresh \<sigma>. b \<noteq> a \<longrightarrow> objects \<sigma>\<^sub>e b = objects \<sigma> b"
      using i5 res c o2 s1 by auto
    show ?thesis using g1 g2 g3 g4 g5 by blast
  qed
qed

lemma bfs_generator_store_pure:
  assumes "bfs_generator_store \<sigma> G start = ((refs, \<sigma>\<^sub>e), r)"
  shows "map (objects \<sigma>\<^sub>e) refs = fst (bfs_generator G start) \<and> r = snd (bfs_generator G start) \<and>
         distinct refs \<and> fresh \<sigma> \<notin> set refs \<and> (\<forall>b < fresh \<sigma>. objects \<sigma>\<^sub>e b = objects \<sigma> b)"
proof -
  let ?\<sigma> = "\<sigma>\<lparr>objects := (objects \<sigma>)(fresh \<sigma> := {start}), fresh := Suc (fresh \<sigma>)\<rparr>"
  have run: "bfs_generator_store_loop G (fresh \<sigma>) ?\<sigma> [start] = ((refs, \<sigma>\<^sub>e), r)"
    using assms by (simp add: bfs_generator_store_def set_new_def)
  have "fresh \<sigma> < fresh ?\<sigma>" by simp
  then have "map (objects \<sigma>\<^sub>e) refs = fst (bfs_generator_loop G (objects ?\<sigma> (fresh \<sigma>)) [start]) \<and>
         r = snd (bfs_generator_loop G (objects ?\<sigma> (fresh \<sigma>)) [start]) \<and>
         distinct refs \<and> (\<forall>x \<in> set refs. fresh ?\<sigma> \<le> x) \<and>
         (\<forall>b < fresh ?\<sigma>. b \<noteq> fresh \<sigma> \<longrightarrow> objects \<sigma>\<^sub>e b = objects ?\<sigma> b)"
    using run by (rule bfs_generator_store_loop_pure)
  then show ?thesis by (auto simp: bfs_generator_def)
qed

definition empty_store :: store where
  "empty_store = \<lparr>objects = (\<lambda>a. {}), fresh = 0\<rparr>"

text \<open>
  The ring lattice of 8 nodes in which every node is joined to its 4 nearest nodes, with
  each neighbour list in the order in which the edges
  \<open>(0,1), (1,2), ..., (7,0), (0,2), (1,3), ..., (7,1)\<close> are added; \<open>ascending\<close> is the same
  graph with every neighbour list sorted by node id.
\<close>

definition ring8_4 :: graph where
  "ring8_4 = [(0, [1, 7, 2, 6]), (1, [0, 2, 3, 7]), (2, [1, 3, 0, 4]), (3, [2, 4, 1, 5]),
              (4, [3, 5, 2, 6]), (5, [4, 6, 3, 7]), (6, [5, 7, 4, 0]), (7, [6, 0, 5, 1])]"

definition ascending :: "graph \<Rightarrow> graph" where
  "ascending G = map (\<lambda>(n, ns). (n, sort ns)) G"

definition swapped :: graph where
  "swapped = [(1, [0]), (0, [1])]"

definition pair2 :: graph where
  "pair2 = [(0, [1]), (1, [0])]"

lemma visit_neighbors_filter:
  "distinct ns \<Longrightarrow> visit_neighbors ns V Q = (V \<union> set ns, Q @ filter (\<lambda>n. n \<notin> V) ns)"
proof (induction ns V Q rule: visit_neighbors.induct)
  case (1 visited queue)
  then show ?case by simp
next
  case (2 neighbor ns visited queue)
  have "filter (\<lambda>n. n \<notin> insert neighbor visited) ns = filter (\<lambda>n. n \<notin> visited) ns"
    using "2.prems" by (intro filter_cong) auto
  then show ?case using 2 by auto
qed

lemma bfs_generator_loop_cong:
  assumes "\<forall>n. neighbors G n = neighbors G' n"
  shows "bfs_generator_loop G V Q = bfs_generator_loop G' V Q"
  using assms
proof (induction G V Q rule: bfs_generator_loop.induct)
  case (1 G visited)
  then show ?case by simp
next
  case (2 G visited node queue)
  have nb: "neighbors G' node = neighbors G node" using "2.prems" by simp
  show ?case
  proof (cases "neighbors G node")
    case (Inl e)
    then show ?thesis using nb by simp
  next
    case (Inr ns)
    obtain V' Q' where vn: "visit_neighbors ns visited queue = (V', Q')"
      by (cases "visit_neighbors ns visited queue")
    have "bfs_generator_loop G V' Q' = bfs_generator_loop G' V' Q'"
      using "2.prems" by (rule "2.IH" [OF Inr vn [symmetric]])
    then show ?thesis using nb Inr vn by simp
  qed
qed

lemma bfs_spread_loop_cong:
  assumes "\<forall>n. neighbors G n = neighbors G' n"
  shows "bfs_spread_loop G V Q L = bfs_spread_loop G' V Q L"
  using assms
proof (induction G V Q L rule: bfs_spread_loop.induct)
  case (1 G visited levels)
  then show ?case by simp
next
  case (2 G visited node depth queue levels)
  have nb: "neighbors G' node = neighbors G node" using "2.prems" by simp
  show ?case
  proof (cases "neighbors G node")
    case (Inl e)
    then show ?thesis using nb by simp
  next
    case (Inr ns)
    obtain V' Q' where sp: "spread_neighbors ns depth visited queue = (V', Q')"
      by (cases "spread_neighbors ns depth visited queue")
    have "bfs_spread_loop G V' Q' (AList.update depth (get levels depth 0 + 1) levels) =
          bfs_spread_loop G' V' Q' (AList.update depth (get levels depth 0 + 1) levels)"
      using "2.prems" by (rule "2.IH" [OF refl Inr sp [symmetric]])
    then show ?thesis using nb Inr sp by simp
  qed
qed

section \<open>The graph builder\<close>

text \<open>
  The graphs are built by the graph library's \<^verbatim>\<open>watts_strogatz_graph\<close>
  (\<^verbatim>\<open>src/app.py\<close>, lines 61 to 65), whose code is not part of the repository. The
  ring phase and the rewiring phase of the builder are therefore modelled from section 4.1
  of the specification. The source passes the values of its sliders to the builder without
  any check of its own (lines 23 to 25 offer odd degrees), and no \<^verbatim>\<open>InvalidParameter\<close>
  occurs in it; which configurations are rejected is the library function's business: it
  raises only for a degree above the number of nodes.
\<close>

text \<open>Modelled from the spec: the configuration \<^verbatim>\<open>RewireConfig\<close> of the absent builder.\<close>

record config =
  population :: nat
  baseDegree :: nat
  rewireProbability :: real

text \<open>Modelled from the spec: the error \<^verbatim>\<open>InvalidParameter\<close> of the absent builder, with
  the name of the offending field. Beside it stands the error that the library function
  raises for a degree above the number of nodes, its \<^verbatim>\<open>NetworkXError\<close>.\<close>

datatype build_error = InvalidParameter string | NetworkXError_build

text \<open>Modelled from the spec: the constraints on the configuration of the absent builder.
  They describe the configurations the specification calls valid; the builder does not
  check them.\<close>

definition valid_config :: "config \<Rightarrow> bool" where
  "valid_config cfg \<longleftrightarrow>
     4 \<le> population cfg \<and>
     even (baseDegree cfg) \<and> 2 \<le> baseDegree cfg \<and> baseDegree cfg < population cfg \<and>
     0 \<le> rewireProbability cfg \<and> rewireProbability cfg \<le> 1"

text \<open>Modelled from the spec: the random source passed to the absent builder. For the
  edge with index \<open>e\<close> in the order of the rewiring phase it gives a number of the unit
  interval, compared with the rewiring probability, and the finitely many nodes drawn as
  replacement endpoints, in the order in which they are tried.\<close>

type_synonym random_source = "nat \<Rightarrow> real \<times> node list"

text \<open>Modelled from the spec: the numbers of a random source lie in the unit interval.\<close>

definition unit_source :: "random_source \<Rightarrow> bool" where
  "unit_source rnd \<longleftrightarrow> (\<forall>e. 0 \<le> fst (rnd e) \<and> fst (rnd e) < 1)"

text \<open>Modelled from the spec: the ring phase of the absent builder. Node \<open>i\<close> is joined to
  the \<open>k div 2\<close> nearest nodes on each side of the ring of \<open>n\<close> nodes.\<close>

definition ring_neighbors :: "nat \<Rightarrow> nat \<Rightarrow> node \<Rightarrow> node list" where
  "ring_neighbors n k i = concat (map (\<lambda>j. [(i + j) mod n, (i + n - j) mod n]) [1..<k div 2 + 1])"

definition ring_lattice :: "nat \<Rightarrow> nat \<Rightarrow> graph" where
  "ring_lattice n k = map (\<lambda>i. (i, ring_neighbors n k i)) [0..<n]"

text \<open>Modelled from the spec: the order in which the rewiring phase of the absent builder
  takes the edges, by ring distance and then by node index; an edge is the pair of its
  near and its far endpoint.\<close>

definition ring_pairs :: "nat \<Rightarrow> nat \<Rightarrow> (node \<times> node) list" where
  "ring_pairs n k = map (\<lambda>(j, i). (i, (i + j) mod n)) (List.product [1..<k div 2 + 1] [0..<n])"

text \<open>Modelled from the spec: replacing the far endpoint \<open>v\<close> of the edge of \<open>u\<close> by \<open>w\<close>
  in the absent builder, as the removal of one edge and the addition of another.\<close>

definition remove_edge :: "node \<Rightarrow> node \<Rightarrow> graph \<Rightarrow> graph" where
  "remove_edge u v G = AList.map_entry v (remove1 u) (AList.map_entry u (remove1 v) G)"

definition add_edge :: "node \<Rightarrow> node \<Rightarrow> graph \<Rightarrow> graph" where
  "add_edge u w G = AList.map_entry w (\<lambda>ns. ns @ [u]) (AList.map_entry u (\<lambda>ns. ns @ [w]) G)"

text \<open>Modelled from the spec: a replacement endpoint of the absent builder is a node that
  is not the near endpoint and does not already share an edge with it.\<close>

definition valid_endpoint :: "graph \<Rightarrow> node \<Rightarrow> node \<Rightarrow> bool" where
  "valid_endpoint G u w \<longleftrightarrow> w \<in> set (nodes G) \<and> w \<noteq> u \<and> w \<notin> set (adj G u)"

text \<open>Modelled from the spec: one edge in the rewiring phase of the absent builder. With
  the drawn number below the rewiring probability, the far endpoint is replaced by the
  first drawn node that is valid; when no drawn node is valid the edge is left as it is.\<close>

definition rewire_edge :: "real \<Rightarrow> real \<times> node list \<Rightarrow> node \<Rightarrow> node \<Rightarrow> graph \<Rightarrow> graph" where
  "rewire_edge p draw u v G =
     (case draw of
        (r, candidates) \<Rightarrow>
          if r < p
          then (case List.find (valid_endpoint G u) candidates of
                  None \<Rightarrow> G
                | Some w \<Rightarrow> add_edge u w (remove_edge u v G))
          else G)"

text \<open>Modelled from the spec: the rewiring phase of the absent builder over the edges in
  order, \<open>e\<close> being the index of the next edge.\<close>

fun rewire :: "real \<Rightarrow> random_source \<Rightarrow> nat \<Rightarrow> (node \<times> node) list \<Rightarrow> graph \<Rightarrow> graph" where
  "rewire p rnd e [] G = G"
| "rewire p rnd e ((u, v) # ps) G = rewire p rnd (Suc e) ps (rewire_edge p (rnd e) u v G)"

text \<open>The graph on the nodes \<open>0, ..., n - 1\<close> in which every two nodes are joined, which the
  library function returns for a degree equal to the number of nodes.\<close>

definition complete_graph :: "nat \<Rightarrow> graph" where
  "complete_graph n = map (\<lambda>i. (i, filter (\<lambda>j. j \<noteq> i) [0..<n])) [0..<n]"

text \<open>Modelled from the spec: the contract \<^verbatim>\<open>build\<close> of the absent builder, the ring
  phase followed by the rewiring phase. The treatment of the parameters is not the
  specification's but the library function's, which the source calls unchecked: a degree
  above the number of nodes raises, a degree equal to the number of nodes gives the complete
  graph, and every other configuration is built, an odd degree \<open>k\<close> with \<open>k div 2\<close>
  neighbours on each side.\<close>

definition build :: "config \<Rightarrow> random_source \<Rightarrow> build_error + graph" where
  "build cfg rnd =
     (if population cfg < baseDegree cfg then Inl NetworkXError_build
      else if baseDegree cfg = population cfg then Inr (complete_graph (population cfg))
      else Inr (rewire (rewireProbability cfg) rnd 0
                  (ring_pairs (population cfg) (baseDegree cfg))
                  (ring_lattice (population cfg) (baseDegree cfg))))"

text \<open>Modelled from the spec: the edges of a built graph, a set of unordered pairs of
  nodes, and their number.\<close>

definition edge_set :: "graph \<Rightarrow> node set set" where
  "edge_set G = set (concat (map (\<lambda>u. map (\<lambda>v. {u, v}) (adj G u)) (nodes G)))"

definition number_of_edges :: "graph \<Rightarrow> nat" where
  "number_of_edges G = card (edge_set G)"

text \<open>The sum of the degrees of the nodes.\<close>

definition degree_sum :: "graph \<Rightarrow> nat" where
  "degree_sum G = sum_list (map (\<lambda>(n, ns). length ns) G)"

subsection \<open>Arithmetic on the ring\<close>

lemma mod_eq_close:
  fixes a b n :: nat
  assumes "a \<le> b" and "b - a < n" and "a mod n = b mod n"
  shows "a = b"
proof (rule ccontr)
  assume "a \<noteq> b"
  then have pos: "0 < b - a" using assms(1) by simp
  have "n dvd b - a" using mod_eq_dvd_iff_nat [OF assms(1), of n] assms(3) by simp
  then show False using nat_dvd_not_less [OF pos assms(2)] by simp
qed

lemma ring_forward_inj:
  assumes "j < n" and "j' < n" and "(i + j) mod n = (i + j') mod (n::nat)"
  shows "j = j'"
proof (cases "j \<le> j'")
  case True
  then have "i + j \<le> i + j'" and "i + j' - (i + j) < n" using assms(2) by simp_all
  then have "i + j = i + j'" using assms(3) by (rule mod_eq_close)
  then show ?thesis by simp
next
  case False
  then have "i + j' \<le> i + j" and "i + j - (i + j') < n" using assms(1) by simp_all
  then have "i + j' = i + j" using assms(3) [symmetric] by (rule mod_eq_close)
  then show ?thesis by simp
qed

lemma ring_backward_inj:
  assumes "j \<le> n" and "j' \<le> n" and "0 < j" and "0 < j'"
    and "(i + n - j) mod n = (i + n - j') mod (n::nat)"
  shows "j = j'"
proof (cases "j \<le> j'")
  case True
  then have "i + n - j' \<le> i + n - j" and "i + n - j - (i + n - j') < n"
    using assms(1-4) by simp_all
  then have "i + n - j' = i + n - j" using assms(5) [symmetric] by (rule mod_eq_close)
  then show ?thesis using assms(1,2) by simp
next
  case False
  then have "i + n - j \<le> i + n - j'" and "i + n - j' - (i + n - j) < n"
    using assms(1-4) by simp_all
  then have "i + n - j = i + n - j'" using assms(5) by (rule mod_eq_close)
  then show ?thesis using assms(1,2) by simp
qed

lemma ring_forward_backward:
  assumes "0 < j" and "j + j' < n"
  shows "(i + j) mod n \<noteq> (i + n - j') mod (n::nat)"
proof
  assume e: "(i + j) mod n = (i + n - j') mod n"
  have "i + j \<le> i + n - j'" and "i + n - j' - (i + j) < n" using assms by simp_all
  then have "i + j = i + n - j'" using e by (rule mod_eq_close)
  then show False using assms by simp
qed

lemma ring_forward_neq:
  assumes "0 < j" and "j < n" and "x < (n::nat)"
  shows "(x + j) mod n \<noteq> x"
proof
  assume a: "(x + j) mod n = x"
  have "x mod n = x" using assms(3) by simp
  then have e: "x mod n = (x + j) mod n" using a by (simp only:)
  have "x \<le> x + j" and "x + j - x < n" using assms(2) by simp_all
  then have "x = x + j" using e by (rule mod_eq_close)
  then show False using assms(1) by simp
qed

lemma ring_back_again:
  assumes "j \<le> n" and "x < (n::nat)"
  shows "((x + j) mod n + n - j) mod n = x"
proof -
  have "((x + j) mod n + n - j) mod n = ((x + j) mod n + (n - j)) mod n"
    using assms by simp
  also have "\<dots> = (x + j + (n - j)) mod n" by (simp add: mod_add_left_eq)
  also have "\<dots> = (x + n) mod n" using assms by simp
  finally show ?thesis using assms by simp
qed

lemma ring_pair_inj:
  assumes "0 < j" and "0 < j'" and "j + j' < n" and "i < n" and "i' < (n::nat)"
    and "{i, (i + j) mod n} = {i', (i' + j') mod n}"
  shows "i = i' \<and> j = j'"
proof -
  from assms(6) consider "i = i'" "(i + j) mod n = (i' + j') mod n"
    | "i = (i' + j') mod n" "(i + j) mod n = i'"
    by (auto simp: doubleton_eq_iff)
  then show ?thesis
  proof cases
    case 1
    have "j < n" "j' < n" using assms(1-3) by simp_all
    then have "j = j'" using 1(2) unfolding 1(1) [symmetric] by (rule ring_forward_inj)
    then show ?thesis using 1(1) by simp
  next
    case 2
    have "((i' + j') mod n + j) mod n = i'" using 2(2) unfolding 2(1) .
    moreover have "((i' + j') mod n + j) mod n = (i' + j' + j) mod n" by (simp add: mod_add_left_eq)
    moreover have "i' mod n = i'" using assms(5) by simp
    ultimately have e: "i' mod n = (i' + j' + j) mod n" by (simp only:)
    have "i' \<le> i' + j' + j" and "i' + j' + j - i' < n" using assms(3) by simp_all
    then have "i' = i' + j' + j" using e by (rule mod_eq_close)
    then show ?thesis using assms(1) by simp
  qed
qed

subsection \<open>The ring lattice\<close>

lemma nodes_ring_lattice: "nodes (ring_lattice n k) = [0..<n]"
  by (simp add: nodes_def ring_lattice_def comp_def)

lemma map_of_tabulate: "map_of (map (\<lambda>i. (i, f i)) xs) i = (if i \<in> set xs then Some (f i) else None)"
  by (induction xs) auto

lemma adj_ring_lattice: "i < n \<Longrightarrow> adj (ring_lattice n k) i = ring_neighbors n k i"
  by (simp add: adj_def ring_lattice_def map_of_tabulate)

lemma length_pairs_concat: "length (concat (map (\<lambda>j. [a j, b j]) js)) = 2 * length js"
  by (induction js) simp_all

lemma set_pairs_concat: "set (concat (map (\<lambda>j. [a j, b j]) js)) = a ` set js \<union> b ` set js"
  by (induction js) auto

lemma distinct_pairs_concat:
  assumes "distinct js" and "inj_on a (set js)" and "inj_on b (set js)"
    and "\<forall>j \<in> set js. \<forall>j' \<in> set js. a j \<noteq> b j'"
  shows "distinct (concat (map (\<lambda>j. [a j, b j]) js))"
  using assms
proof (induction js)
  case Nil
  then show ?case by simp
next
  case (Cons j js)
  then have "distinct (concat (map (\<lambda>j. [a j, b j]) js))" by simp
  moreover have "a j \<noteq> b j" using Cons.prems(4) by simp
  moreover have "a j \<notin> a ` set js" using Cons.prems(1,2) by auto
  moreover have "a j \<notin> b ` set js" using Cons.prems(4) by auto
  moreover have "b j \<notin> a ` set js" using Cons.prems(4) by fastforce
  moreover have "b j \<notin> b ` set js" using Cons.prems(1,3) by auto
  ultimately show ?case by (auto simp: set_pairs_concat)
qed

lemma length_ring_neighbors: "length (ring_neighbors n k i) = 2 * (k div 2)"
  by (simp add: ring_neighbors_def length_pairs_concat)

lemma set_ring_neighbors:
  "set (ring_neighbors n k i) =
     {(i + j) mod n | j. 1 \<le> j \<and> j \<le> k div 2} \<union> {(i + n - j) mod n | j. 1 \<le> j \<and> j \<le> k div 2}"
  by (auto simp: ring_neighbors_def set_pairs_concat)

lemma distinct_ring_neighbors:
  assumes "2 * (k div 2) < n"
  shows "distinct (ring_neighbors n k i)"
  unfolding ring_neighbors_def
proof (rule distinct_pairs_concat)
  show "distinct [1..<k div 2 + 1]" by simp
  show "inj_on (\<lambda>j. (i + j) mod n) (set [1..<k div 2 + 1])"
  proof (rule inj_onI)
    fix j j' assume "j \<in> set [1..<k div 2 + 1]" "j' \<in> set [1..<k div 2 + 1]"
      and e: "(i + j) mod n = (i + j') mod n"
    then have "j < n" "j' < n" using assms by auto
    then show "j = j'" using e by (rule ring_forward_inj)
  qed
  show "inj_on (\<lambda>j. (i + n - j) mod n) (set [1..<k div 2 + 1])"
  proof (rule inj_onI)
    fix j j' assume "j \<in> set [1..<k div 2 + 1]" "j' \<in> set [1..<k div 2 + 1]"
      and e: "(i + n - j) mod n = (i + n - j') mod n"
    then have "j \<le> n" "j' \<le> n" "0 < j" "0 < j'" using assms by auto
    then show "j = j'" using e by (rule ring_backward_inj)
  qed
  show "\<forall>j \<in> set [1..<k div 2 + 1]. \<forall>j' \<in> set [1..<k div 2 + 1]. (i + j) mod n \<noteq> (i + n - j') mod n"
  proof (intro ballI)
    fix j j' assume "j \<in> set [1..<k div 2 + 1]" "j' \<in> set [1..<k div 2 + 1]"
    then have "0 < j" "j + j' < n" using assms by auto
    then show "(i + j) mod n \<noteq> (i + n - j') mod n" by (rule ring_forward_backward)
  qed
qed

lemma degree_sum_ring_lattice: "degree_sum (ring_lattice n k) = n * (2 * (k div 2))"
  by (simp add: degree_sum_def ring_lattice_def comp_def length_ring_neighbors sum_list_triv)

lemma ring_pairs_iff:
  "(x, y) \<in> set (ring_pairs n k) \<longleftrightarrow> (\<exists>j. 1 \<le> j \<and> j \<le> k div 2 \<and> x < n \<and> y = (x + j) mod n)"
  by (auto simp: ring_pairs_def)

lemma ring_pairs_present:
  assumes "2 * (k div 2) < n" and "(x, y) \<in> set (ring_pairs n k)"
  shows "x < n \<and> y < n \<and> x \<noteq> y \<and> y \<in> set (adj (ring_lattice n k) x) \<and>
         x \<in> set (adj (ring_lattice n k) y)"
proof -
  from assms(2) obtain j where j: "1 \<le> j" "j \<le> k div 2" "x < n" "y = (x + j) mod n"
    unfolding ring_pairs_iff by blast
  have jn: "0 < j" "j < n" "j \<le> n" using j assms(1) by simp_all
  have yn: "y < n" using j(3,4) by simp
  have "x \<noteq> y" using ring_forward_neq [OF jn(1,2) j(3)] j(4) by simp
  moreover have "y \<in> set (adj (ring_lattice n k) x)"
    using j by (auto simp: adj_ring_lattice set_ring_neighbors)
  moreover have "(y + n - j) mod n = x" unfolding j(4) using jn(3) j(3) by (rule ring_back_again)
  then have "x \<in> set (adj (ring_lattice n k) y)"
    using j(1,2) yn by (auto simp: adj_ring_lattice set_ring_neighbors)
  ultimately show ?thesis using j(3) yn by simp
qed

lemma distinct_ring_pairs:
  assumes "2 * (k div 2) < n"
  shows "distinct (map (\<lambda>(a, b). {a, b}) (ring_pairs n k))"
proof -
  let ?g = "\<lambda>(j, i). {i, (i + j) mod n}"
  let ?I = "List.product [1..<k div 2 + 1] [0..<n]"
  have "inj_on ?g (set ?I)"
  proof (rule inj_onI)
    fix p q assume p: "p \<in> set ?I" and q: "q \<in> set ?I" and e: "?g p = ?g q"
    obtain j i where pi: "p = (j, i)" by (cases p)
    obtain j' i' where qi: "q = (j', i')" by (cases q)
    have b: "0 < j" "0 < j'" "j + j' < n" "i < n" "i' < n" using p q pi qi assms by auto
    have "{i, (i + j) mod n} = {i', (i' + j') mod n}" using e pi qi by simp
    with b have "i = i' \<and> j = j'" by (rule ring_pair_inj)
    then show "p = q" using pi qi by simp
  qed
  moreover have "distinct ?I" by (simp add: distinct_product)
  ultimately have "distinct (map ?g ?I)" by (simp add: distinct_map)
  moreover have "map (\<lambda>(a, b). {a, b}) (ring_pairs n k) = map ?g ?I"
    by (simp add: ring_pairs_def comp_def case_prod_unfold)
  ultimately show ?thesis by simp
qed

subsection \<open>Rewiring keeps the number of edges\<close>

lemma nodes_map_entry: "nodes (AList.map_entry k f G) = nodes G"
  unfolding nodes_def by (induction G) auto

lemma adj_map_entry:
  "adj (AList.map_entry k f G) x = (if x = k \<and> k \<in> set (nodes G) then f (adj G x) else adj G x)"
proof (cases "map_of G k")
  case None
  then have "k \<notin> set (nodes G)" by (simp add: nodes_def map_of_eq_None_iff)
  then show ?thesis using None by (simp add: adj_def map_of_map_entry)
next
  case (Some ns)
  then have "k \<in> set (nodes G)" unfolding nodes_def using map_of_eq_None_iff [of G k] by auto
  then show ?thesis using Some by (simp add: adj_def map_of_map_entry)
qed

lemma degree_sum_map_entry:
  assumes "k \<in> set (nodes G)"
  shows "degree_sum (AList.map_entry k f G) + length (adj G k) = degree_sum G + length (f (adj G k))"
  using assms
proof (induction G)
  case Nil
  then show ?case by (simp add: nodes_def)
next
  case (Cons p G)
  show ?case
  proof (cases "fst p = k")
    case True
    then show ?thesis by (cases p) (simp add: degree_sum_def adj_def)
  next
    case False
    then have "k \<in> set (nodes G)" using Cons.prems by (simp add: nodes_def)
    then have "degree_sum (AList.map_entry k f G) + length (adj G k) =
        degree_sum G + length (f (adj G k))" by (rule Cons.IH)
    moreover have "adj (p # G) k = adj G k" using False by (cases p) (simp add: adj_def)
    ultimately show ?thesis using False by (cases p) (simp add: degree_sum_def)
  qed
qed

lemma length_remove1_member: "x \<in> set xs \<Longrightarrow> Suc (length (remove1 x xs)) = length xs"
  by (induction xs) auto

lemma nodes_rewired: "nodes (add_edge u w (remove_edge u v G)) = nodes G"
  by (simp add: add_edge_def remove_edge_def nodes_map_entry)

lemma adj_rewired:
  assumes "u \<in> set (nodes G)" and "v \<in> set (nodes G)" and "w \<in> set (nodes G)"
    and "u \<noteq> v" and "w \<noteq> u"
  shows "adj (add_edge u w (remove_edge u v G)) x =
     (if x = u then remove1 v (adj G u) @ [w]
      else if x = w \<and> w = v then remove1 u (adj G v) @ [u]
      else if x = w then adj G w @ [u]
      else if x = v then remove1 u (adj G v)
      else adj G x)"
  using assms by (simp add: add_edge_def remove_edge_def adj_map_entry nodes_map_entry)

lemma degree_sum_rewired:
  assumes "u \<in> set (nodes G)" and "v \<in> set (nodes G)" and "w \<in> set (nodes G)"
    and "u \<noteq> v" and "w \<noteq> u" and "v \<in> set (adj G u)" and "u \<in> set (adj G v)"
  shows "degree_sum (add_edge u w (remove_edge u v G)) = degree_sum G"
proof -
  let ?G1 = "AList.map_entry u (remove1 v) G"
  let ?G2 = "AList.map_entry v (remove1 u) ?G1"
  let ?G3 = "AList.map_entry u (\<lambda>ns. ns @ [w]) ?G2"
  let ?G4 = "AList.map_entry w (\<lambda>ns. ns @ [u]) ?G3"
  have n1: "nodes ?G1 = nodes G" and n2: "nodes ?G2 = nodes G" and n3: "nodes ?G3 = nodes G"
    by (simp_all add: nodes_map_entry)
  have "degree_sum ?G1 + length (adj G u) = degree_sum G + length (remove1 v (adj G u))"
    using assms(1) by (rule degree_sum_map_entry)
  then have d1: "degree_sum ?G1 + 1 = degree_sum G"
    using length_remove1_member [OF assms(6)] by linarith
  have "adj ?G1 v = adj G v" using assms(4) by (simp add: adj_map_entry)
  moreover have "degree_sum ?G2 + length (adj ?G1 v) = degree_sum ?G1 + length (remove1 u (adj ?G1 v))"
    using assms(2) n1 by (intro degree_sum_map_entry) simp
  ultimately have "degree_sum ?G2 + length (adj G v) = degree_sum ?G1 + length (remove1 u (adj G v))"
    by simp
  then have d2: "degree_sum ?G2 + 1 = degree_sum ?G1"
    using length_remove1_member [OF assms(7)] by linarith
  have "degree_sum ?G3 + length (adj ?G2 u) = degree_sum ?G2 + length (adj ?G2 u @ [w])"
    using assms(1) n2 by (intro degree_sum_map_entry) simp
  then have d3: "degree_sum ?G3 = degree_sum ?G2 + 1" by simp
  have "degree_sum ?G4 + length (adj ?G3 w) = degree_sum ?G3 + length (adj ?G3 w @ [u])"
    using assms(3) n3 by (intro degree_sum_map_entry) simp
  then have d4: "degree_sum ?G4 = degree_sum ?G3 + 1" by simp
  have "degree_sum ?G4 = degree_sum G" using d1 d2 d3 d4 by simp
  then show ?thesis by (simp add: add_edge_def remove_edge_def)
qed

text \<open>
  While the rewiring phase runs, every edge that it has not taken yet is still an edge of
  the graph, and no two of these edges join the same two nodes.
\<close>

definition unrewired :: "nat \<Rightarrow> (node \<times> node) list \<Rightarrow> graph \<Rightarrow> bool" where
  "unrewired n ps G \<longleftrightarrow>
     nodes G = [0..<n] \<and>
     (\<forall>(x, y) \<in> set ps. x < n \<and> y < n \<and> x \<noteq> y \<and> y \<in> set (adj G x) \<and> x \<in> set (adj G y)) \<and>
     distinct (map (\<lambda>(a, b). {a, b}) ps)"

lemma kept_rewired:
  assumes "u \<in> set (nodes G)" and "v \<in> set (nodes G)" and "w \<in> set (nodes G)"
    and "u \<noteq> v" and "w \<noteq> u"
    and "z \<in> set (adj G x)" and "\<not> (x = u \<and> z = v)" and "\<not> (x = v \<and> z = u)"
  shows "z \<in> set (adj (add_edge u w (remove_edge u v G)) x)"
  using assms(6-8) unfolding adj_rewired [OF assms(1-5)] by auto

lemma unrewired_tail: "unrewired n (p # ps) G \<Longrightarrow> unrewired n ps G"
  by (simp add: unrewired_def)

lemma rewire_edge_step:
  assumes "unrewired n ((u, v) # ps) G"
  shows "unrewired n ps (rewire_edge p d u v G) \<and> degree_sum (rewire_edge p d u v G) = degree_sum G"
proof -
  obtain r candidates where d: "d = (r, candidates)" by (cases d)
  show ?thesis
  proof (cases "r < p \<and> List.find (valid_endpoint G u) candidates \<noteq> None")
    case False
    then have "rewire_edge p d u v G = G" using d by (auto simp: rewire_edge_def)
    then show ?thesis using unrewired_tail [OF assms] by simp
  next
    case True
    then obtain w where w: "List.find (valid_endpoint G u) candidates = Some w" by auto
    let ?G = "add_edge u w (remove_edge u v G)"
    have G': "rewire_edge p d u v G = ?G" using True d w by (simp add: rewire_edge_def)
    have "valid_endpoint G u w" using w by (auto simp: find_Some_iff)
    then have wn: "w \<in> set (nodes G)" and wu: "w \<noteq> u" by (simp_all add: valid_endpoint_def)
    from assms have nd: "nodes G = [0..<n]"
      and pairs: "\<forall>(x, y) \<in> set ((u, v) # ps).
          x < n \<and> y < n \<and> x \<noteq> y \<and> y \<in> set (adj G x) \<and> x \<in> set (adj G y)"
      and dall: "distinct (map (\<lambda>(a, b). {a, b}) ((u, v) # ps))"
      unfolding unrewired_def by blast+
    have uv: "u < n" "v < n" "u \<noteq> v" "v \<in> set (adj G u)" "u \<in> set (adj G v)"
      using pairs by auto
    have rest: "\<forall>(x, y) \<in> set ps. x < n \<and> y < n \<and> x \<noteq> y \<and> y \<in> set (adj G x) \<and> x \<in> set (adj G y)"
      using pairs by auto
    have new: "{u, v} \<notin> (\<lambda>(a, b). {a, b}) ` set ps"
      and dist: "distinct (map (\<lambda>(a, b). {a, b}) ps)"
      using dall by simp_all
    have un: "u \<in> set (nodes G)" and vn: "v \<in> set (nodes G)" using nd uv(1,2) by simp_all
    have "degree_sum ?G = degree_sum G"
      using un vn wn uv(3) wu uv(4,5) by (rule degree_sum_rewired)
    moreover have "nodes ?G = [0..<n]" using nd by (simp add: nodes_rewired)
    moreover have "\<forall>(x, y) \<in> set ps. x < n \<and> y < n \<and> x \<noteq> y \<and> y \<in> set (adj ?G x) \<and> x \<in> set (adj ?G y)"
    proof (intro ballI, clarify)
      fix x y assume xy: "(x, y) \<in> set ps"
      then have a: "x < n" "y < n" "x \<noteq> y" "y \<in> set (adj G x)" "x \<in> set (adj G y)"
        using rest by auto
      have "(\<lambda>(a, b). {a, b}) (x, y) \<in> (\<lambda>(a, b). {a, b}) ` set ps" using xy by (rule imageI)
      then have mem: "{x, y} \<in> (\<lambda>(a, b). {a, b}) ` set ps" by simp
      have "{x, y} \<noteq> {u, v}"
      proof
        assume "{x, y} = {u, v}"
        then have "{u, v} \<in> (\<lambda>(a, b). {a, b}) ` set ps" using mem by (simp only:)
        with new show False ..
      qed
      then have ne: "\<not> (x = u \<and> y = v)" "\<not> (x = v \<and> y = u)" by auto
      have "y \<in> set (adj ?G x)" using un vn wn uv(3) wu a(4) ne by (rule kept_rewired)
      moreover have "x \<in> set (adj ?G y)"
        using un vn wn uv(3) wu a(5) ne by (intro kept_rewired) auto
      ultimately show "x < n \<and> y < n \<and> x \<noteq> y \<and> y \<in> set (adj ?G x) \<and> x \<in> set (adj ?G y)"
        using a by simp
    qed
    ultimately show ?thesis unfolding G' unrewired_def using dist by simp
  qed
qed

lemma rewire_degree_sum:
  "unrewired n ps G \<Longrightarrow>
     degree_sum (rewire p rnd e ps G) = degree_sum G \<and> nodes (rewire p rnd e ps G) = [0..<n]"
proof (induction ps arbitrary: e G)
  case Nil
  then show ?case by (simp add: unrewired_def)
next
  case (Cons pr ps)
  obtain u v where pr: "pr = (u, v)" by (cases pr)
  have "unrewired n ps (rewire_edge p (rnd e) u v G) \<and>
        degree_sum (rewire_edge p (rnd e) u v G) = degree_sum G"
    using Cons.prems unfolding pr by (rule rewire_edge_step)
  then show ?case using Cons.IH [of "rewire_edge p (rnd e) u v G" "Suc e"] pr by simp
qed

lemma unrewired_ring:
  assumes "2 * (k div 2) < n"
  shows "unrewired n (ring_pairs n k) (ring_lattice n k)"
  unfolding unrewired_def
proof (intro conjI)
  show "nodes (ring_lattice n k) = [0..<n]" by (rule nodes_ring_lattice)
  show "\<forall>(x, y) \<in> set (ring_pairs n k). x < n \<and> y < n \<and> x \<noteq> y \<and>
      y \<in> set (adj (ring_lattice n k) x) \<and> x \<in> set (adj (ring_lattice n k) y)"
    using ring_pairs_present [OF assms] by blast
  show "distinct (map (\<lambda>(a, b). {a, b}) (ring_pairs n k))" using assms by (rule distinct_ring_pairs)
qed

lemma rewire_never:
  assumes "unit_source rnd" and "p \<le> 0"
  shows "rewire p rnd e ps G = G"
proof (induction ps arbitrary: e)
  case Nil
  show ?case by simp
next
  case (Cons pr ps)
  obtain u v where pr: "pr = (u, v)" by (cases pr)
  have "\<not> fst (rnd e) < p" using assms by (auto simp: unit_source_def dest: spec [of _ e])
  then have "rewire_edge p (rnd e) u v G = G" by (cases "rnd e") (simp add: rewire_edge_def)
  then show ?case using Cons.IH pr by simp
qed

lemma build_valid:
  assumes "valid_config cfg"
  shows "build cfg rnd = Inr (rewire (rewireProbability cfg) rnd 0
                  (ring_pairs (population cfg) (baseDegree cfg))
                  (ring_lattice (population cfg) (baseDegree cfg)))"
  using assms by (auto simp: build_def valid_config_def)

lemma valid_config_ring: "valid_config cfg \<Longrightarrow> 2 * (baseDegree cfg div 2) < population cfg"
  by (auto simp: valid_config_def)

definition config_8_4 :: config where
  "config_8_4 = \<lparr>population = 8, baseDegree = 4, rewireProbability = 1\<rparr>"

definition config_20_4 :: config where
  "config_20_4 = \<lparr>population = 20, baseDegree = 4, rewireProbability = 0\<rparr>"


definition draws :: random_source where
  "draws e = (1 / 2, [e, 2 * e + 1, 3, 5])"

subsection \<open>Rewiring keeps the graph simple and the size of its edge set\<close>

text \<open>
  A simple undirected graph: no neighbour list names a node twice, adjacency is symmetric
  and no node is its own neighbour.
\<close>

definition simple :: "graph \<Rightarrow> bool" where
  "simple G \<longleftrightarrow>
     (\<forall>x. distinct (adj G x)) \<and> (\<forall>x y. y \<in> set (adj G x) \<longrightarrow> x \<in> set (adj G y)) \<and>
     (\<forall>x. x \<notin> set (adj G x))"

lemma adj_is_node: "v \<in> set (adj G u) \<Longrightarrow> u \<in> set (nodes G)"
  using adj_not_node [of u G] by (cases "u \<in> set (nodes G)") auto

lemma edge_set_iff: "s \<in> edge_set G \<longleftrightarrow> (\<exists>u v. v \<in> set (adj G u) \<and> s = {u, v})"
proof
  assume "s \<in> edge_set G"
  then show "\<exists>u v. v \<in> set (adj G u) \<and> s = {u, v}" by (auto simp: edge_set_def)
next
  assume "\<exists>u v. v \<in> set (adj G u) \<and> s = {u, v}"
  then obtain u v where uv: "v \<in> set (adj G u)" "s = {u, v}" by blast
  then have "u \<in> set (nodes G)" using adj_is_node by blast
  then show "s \<in> edge_set G" using uv unfolding edge_set_def by auto
qed

lemma finite_edge_set: "finite (edge_set G)"
  by (simp add: edge_set_def)

lemma set_adj_rewired:
  assumes "u \<in> set (nodes G)" and "v \<in> set (nodes G)" and "w \<in> set (nodes G)"
    and "u \<noteq> v" and "w \<noteq> u" and "w \<noteq> v" and "distinct (adj G u)" and "distinct (adj G v)"
  shows "set (adj (add_edge u w (remove_edge u v G)) x) =
     (if x = u then insert w (set (adj G u) - {v})
      else if x = w then insert u (set (adj G w))
      else if x = v then set (adj G v) - {u}
      else set (adj G x))"
  using assms(4-8) unfolding adj_rewired [OF assms(1-5)] by (simp add: set_remove1_eq)

lemma simple_rewired:
  assumes "simple G"
    and "u \<in> set (nodes G)" and "v \<in> set (nodes G)" and "w \<in> set (nodes G)"
    and "u \<noteq> v" and "w \<noteq> u" and "w \<notin> set (adj G u)" and "v \<in> set (adj G u)"
  shows "simple (add_edge u w (remove_edge u v G))"
proof -
  let ?G = "add_edge u w (remove_edge u v G)"
  from assms(1) have d: "\<And>x. distinct (adj G x)"
    and sym: "\<And>x y. y \<in> set (adj G x) \<Longrightarrow> x \<in> set (adj G y)"
    and irr: "\<And>x. x \<notin> set (adj G x)"
    unfolding simple_def by blast+
  have wv: "w \<noteq> v" using assms(7,8) by auto
  have uw: "u \<notin> set (adj G w)" using sym [of u w] assms(7) by auto
  note A = adj_rewired [OF assms(2-6)]
  note S = set_adj_rewired [OF assms(2-6) wv d d]
  have "distinct (adj ?G x)" for x
    unfolding A using d [of x] d [of u] d [of v] d [of w] assms(7) uw by simp
  moreover have "x \<in> set (adj ?G y)" if "y \<in> set (adj ?G x)" for x y
  proof -
    consider "x = u" | "x \<noteq> u" "x = w" | "x \<noteq> u" "x \<noteq> w" "x = v" | "x \<noteq> u" "x \<noteq> w" "x \<noteq> v"
      by blast
    then show ?thesis
    proof cases
      case 1
      then have "y = w \<or> (y \<in> set (adj G u) \<and> y \<noteq> v)" using that unfolding S by auto
      then show ?thesis
      proof
        assume "y = w"
        then show ?thesis using 1 assms(6) unfolding S by simp
      next
        assume y: "y \<in> set (adj G u) \<and> y \<noteq> v"
        then have "u \<in> set (adj G y)" "y \<noteq> u" using sym irr by auto
        then show ?thesis using 1 y assms(7) unfolding S by auto
      qed
    next
      case 2
      then have "y = u \<or> y \<in> set (adj G w)" using that unfolding S by auto
      then show ?thesis
      proof
        assume "y = u"
        then show ?thesis using 2 unfolding S by simp
      next
        assume y: "y \<in> set (adj G w)"
        then have "w \<in> set (adj G y)" "y \<noteq> w" "y \<noteq> u" using sym irr uw by auto
        then show ?thesis using 2 y wv unfolding S by auto
      qed
    next
      case 3
      then have y: "y \<in> set (adj G v)" "y \<noteq> u" using that unfolding S by auto
      then have "v \<in> set (adj G y)" "y \<noteq> v" using sym irr by auto
      then show ?thesis using 3 y unfolding S by auto
    next
      case 4
      then have y: "y \<in> set (adj G x)" using that unfolding S by auto
      then have "x \<in> set (adj G y)" using sym by auto
      then show ?thesis using 4 unfolding S by auto
    qed
  qed
  moreover have "x \<notin> set (adj ?G x)" for x
    unfolding S using irr [of x] assms(6) by auto
  ultimately show ?thesis unfolding simple_def by blast
qed

lemma edge_set_rewired:
  assumes "simple G"
    and "u \<in> set (nodes G)" and "v \<in> set (nodes G)" and "w \<in> set (nodes G)"
    and "u \<noteq> v" and "w \<noteq> u" and "w \<notin> set (adj G u)" and "v \<in> set (adj G u)"
  shows "edge_set (add_edge u w (remove_edge u v G)) = insert {u, w} (edge_set G - {{u, v}})"
    and "{u, v} \<in> edge_set G" and "{u, w} \<notin> edge_set G"
proof -
  let ?G = "add_edge u w (remove_edge u v G)"
  from assms(1) have d: "\<And>x. distinct (adj G x)"
    and sym: "\<And>x y. y \<in> set (adj G x) \<Longrightarrow> x \<in> set (adj G y)"
    unfolding simple_def by blast+
  have wv: "w \<noteq> v" using assms(7,8) by auto
  have uw: "u \<notin> set (adj G w)" using sym [of u w] assms(7) by auto
  have vu: "u \<in> set (adj G v)" using sym assms(8) by auto
  note S = set_adj_rewired [OF assms(2-6) wv d d]
  show "{u, v} \<in> edge_set G" unfolding edge_set_iff using assms(8) by blast
  show "{u, w} \<notin> edge_set G"
  proof
    assume "{u, w} \<in> edge_set G"
    then obtain x y where xy: "y \<in> set (adj G x)" "{u, w} = {x, y}" unfolding edge_set_iff by blast
    then have "x = u \<and> y = w \<or> x = w \<and> y = u" by (auto simp: doubleton_eq_iff)
    then show False using xy(1) assms(7) uw by auto
  qed
  show "edge_set ?G = insert {u, w} (edge_set G - {{u, v}})"
  proof (intro equalityI subsetI)
    fix s assume "s \<in> edge_set ?G"
    then obtain x y where xy: "y \<in> set (adj ?G x)" "s = {x, y}" unfolding edge_set_iff by blast
    consider "x = u" | "x \<noteq> u" "x = w" | "x \<noteq> u" "x \<noteq> w" "x = v" | "x \<noteq> u" "x \<noteq> w" "x \<noteq> v"
      by blast
    then have "(x = u \<and> y = w) \<or> (x = w \<and> y = u) \<or>
        (y \<in> set (adj G x) \<and> \<not> (x = u \<and> y = v) \<and> \<not> (x = v \<and> y = u))"
    proof cases
      case 1
      then show ?thesis using xy(1) unfolding S by auto
    next
      case 2
      then show ?thesis using xy(1) uw unfolding S by auto
    next
      case 3
      then show ?thesis using xy(1) unfolding S by auto
    next
      case 4
      then show ?thesis using xy(1) unfolding S by auto
    qed
    then consider "s = {u, w}" | "y \<in> set (adj G x)" "{x, y} \<noteq> {u, v}"
      using xy(2) by (auto simp: doubleton_eq_iff)
    then show "s \<in> insert {u, w} (edge_set G - {{u, v}})"
    proof cases
      case 1
      then show ?thesis by simp
    next
      case 2
      then have "s \<in> edge_set G" unfolding edge_set_iff using xy(2) by blast
      then show ?thesis using 2(2) xy(2) by simp
    qed
  next
    fix s assume "s \<in> insert {u, w} (edge_set G - {{u, v}})"
    then consider "s = {u, w}" | "s \<in> edge_set G" "s \<noteq> {u, v}" by blast
    then show "s \<in> edge_set ?G"
    proof cases
      case 1
      have "w \<in> set (adj ?G u)" unfolding S by simp
      then show ?thesis unfolding edge_set_iff using 1 by blast
    next
      case 2
      then obtain x y where xy: "y \<in> set (adj G x)" "s = {x, y}" unfolding edge_set_iff by blast
      have ne: "\<not> (x = u \<and> y = v)" "\<not> (x = v \<and> y = u)" using 2(2) xy(2) by auto
      have "y \<in> set (adj ?G x)" using assms(2-6) xy(1) ne by (rule kept_rewired)
      then show ?thesis unfolding edge_set_iff using xy(2) by blast
    qed
  qed
qed

lemma number_of_edges_rewired:
  assumes "simple G"
    and "u \<in> set (nodes G)" and "v \<in> set (nodes G)" and "w \<in> set (nodes G)"
    and "u \<noteq> v" and "w \<noteq> u" and "w \<notin> set (adj G u)" and "v \<in> set (adj G u)"
  shows "number_of_edges (add_edge u w (remove_edge u v G)) = number_of_edges G"
proof -
  note E = edge_set_rewired [OF assms]
  have "card (insert {u, w} (edge_set G - {{u, v}})) = Suc (card (edge_set G - {{u, v}}))"
    using E(3) finite_edge_set [of G] by (intro card_insert_disjoint) auto
  also have "\<dots> = card (edge_set G)"
    using E(2) finite_edge_set [of G] by (intro card_Suc_Diff1)
  finally show ?thesis unfolding number_of_edges_def E(1) .
qed

lemma ring_forth_again:
  assumes "j \<le> n" and "x < (n::nat)"
  shows "((x + n - j) mod n + j) mod n = x"
proof -
  have "((x + n - j) mod n + j) mod n = (x + n - j + j) mod n" by (simp add: mod_add_left_eq)
  also have "\<dots> = (x + n) mod n" using assms by simp
  finally show ?thesis using assms by simp
qed

lemma ring_backward_neq:
  assumes "0 < j" and "j < n" and "x < (n::nat)"
  shows "(x + n - j) mod n \<noteq> x"
proof
  assume a: "(x + n - j) mod n = x"
  have "((x + n - j) mod n + j) mod n = x" using assms(2,3) by (intro ring_forth_again) simp_all
  then have "(x + j) mod n = x" unfolding a .
  then show False using ring_forward_neq [OF assms] by simp
qed

lemma adj_ring_lattice_outside: "\<not> i < n \<Longrightarrow> adj (ring_lattice n k) i = []"
  by (simp add: adj_def ring_lattice_def map_of_tabulate)

lemma in_ring_neighbors:
  "y \<in> set (ring_neighbors n k x) \<longleftrightarrow>
     (\<exists>j. 1 \<le> j \<and> j \<le> k div 2 \<and> (y = (x + j) mod n \<or> y = (x + n - j) mod n))"
  unfolding set_ring_neighbors by blast

lemma simple_ring_lattice:
  assumes "2 * (k div 2) < n"
  shows "simple (ring_lattice n k)"
proof -
  let ?G = "ring_lattice n k"
  have "distinct (adj ?G x)" for x
    using distinct_ring_neighbors [OF assms, of x]
    by (cases "x < n") (simp_all add: adj_ring_lattice adj_ring_lattice_outside)
  moreover have "x \<in> set (adj ?G y)" if "y \<in> set (adj ?G x)" for x y
  proof -
    have xn: "x < n" using that adj_ring_lattice_outside [of x n k] by (cases "x < n") auto
    then have "y \<in> set (ring_neighbors n k x)" using that by (simp add: adj_ring_lattice)
    then obtain j where j: "1 \<le> j" "j \<le> k div 2" "y = (x + j) mod n \<or> y = (x + n - j) mod n"
      unfolding in_ring_neighbors by blast
    have jn: "j \<le> n" using j(2) assms by simp
    have yn: "y < n" using j(3) xn by auto
    from j(3) have "x = (y + n - j) mod n \<or> x = (y + j) mod n"
    proof
      assume "y = (x + j) mod n"
      then show ?thesis using ring_back_again [OF jn xn] by simp
    next
      assume "y = (x + n - j) mod n"
      then show ?thesis using ring_forth_again [OF jn xn] by simp
    qed
    then have "x \<in> set (ring_neighbors n k y)" unfolding in_ring_neighbors using j(1,2) by blast
    then show ?thesis using yn by (simp add: adj_ring_lattice)
  qed
  moreover have "x \<notin> set (adj ?G x)" for x
  proof
    assume a: "x \<in> set (adj ?G x)"
    have xn: "x < n" using a adj_ring_lattice_outside [of x n k] by (cases "x < n") auto
    then have "x \<in> set (ring_neighbors n k x)" using a by (simp add: adj_ring_lattice)
    then obtain j where j: "1 \<le> j" "j \<le> k div 2" "x = (x + j) mod n \<or> x = (x + n - j) mod n"
      unfolding in_ring_neighbors by blast
    have jn: "0 < j" "j < n" using j(1,2) assms by simp_all
    show False using j(3) ring_forward_neq [OF jn xn] ring_backward_neq [OF jn xn] by auto
  qed
  ultimately show ?thesis unfolding simple_def by blast
qed

lemma edge_set_ring_lattice:
  assumes "2 * (k div 2) < n"
  shows "edge_set (ring_lattice n k) = set (map (\<lambda>(a, b). {a, b}) (ring_pairs n k))"
proof (intro equalityI subsetI)
  fix s assume "s \<in> edge_set (ring_lattice n k)"
  then obtain x y where xy: "y \<in> set (adj (ring_lattice n k) x)" "s = {x, y}"
    unfolding edge_set_iff by blast
  have xn: "x < n" using xy(1) adj_ring_lattice_outside [of x n k] by (cases "x < n") auto
  then have "y \<in> set (ring_neighbors n k x)" using xy(1) by (simp add: adj_ring_lattice)
  then obtain j where j: "1 \<le> j" "j \<le> k div 2" "y = (x + j) mod n \<or> y = (x + n - j) mod n"
    unfolding in_ring_neighbors by blast
  have jn: "j \<le> n" using j(2) assms by simp
  have yn: "y < n" using j(3) xn by auto
  from j(3) have "(x, y) \<in> set (ring_pairs n k) \<or> (y, x) \<in> set (ring_pairs n k)"
  proof
    assume "y = (x + j) mod n"
    then show ?thesis unfolding ring_pairs_iff using j(1,2) xn by blast
  next
    assume "y = (x + n - j) mod n"
    then have "x = (y + j) mod n" using ring_forth_again [OF jn xn] by simp
    then show ?thesis unfolding ring_pairs_iff using j(1,2) yn by blast
  qed
  then show "s \<in> set (map (\<lambda>(a, b). {a, b}) (ring_pairs n k))"
  proof
    assume "(x, y) \<in> set (ring_pairs n k)"
    then have "(\<lambda>(a, b). {a, b}) (x, y) \<in> (\<lambda>(a, b). {a, b}) ` set (ring_pairs n k)" by (rule imageI)
    then show ?thesis using xy(2) by simp
  next
    assume "(y, x) \<in> set (ring_pairs n k)"
    then have "(\<lambda>(a, b). {a, b}) (y, x) \<in> (\<lambda>(a, b). {a, b}) ` set (ring_pairs n k)" by (rule imageI)
    then show ?thesis using xy(2) by (simp add: insert_commute)
  qed
next
  fix s assume "s \<in> set (map (\<lambda>(a, b). {a, b}) (ring_pairs n k))"
  then obtain x y where xy: "(x, y) \<in> set (ring_pairs n k)" "s = {x, y}" by auto
  have "y \<in> set (adj (ring_lattice n k) x)" using ring_pairs_present [OF assms xy(1)] by simp
  then show "s \<in> edge_set (ring_lattice n k)" unfolding edge_set_iff using xy(2) by blast
qed

lemma number_of_edges_ring_lattice:
  assumes "2 * (k div 2) < n"
  shows "number_of_edges (ring_lattice n k) = n * (k div 2)"
proof -
  have "number_of_edges (ring_lattice n k) = card (set (map (\<lambda>(a, b). {a, b}) (ring_pairs n k)))"
    unfolding number_of_edges_def edge_set_ring_lattice [OF assms] ..
  also have "\<dots> = length (map (\<lambda>(a, b). {a, b}) (ring_pairs n k))"
    using distinct_ring_pairs [OF assms] by (rule distinct_card)
  also have "\<dots> = n * (k div 2)" by (simp add: ring_pairs_def)
  finally show ?thesis .
qed

lemma rewire_edge_simple:
  assumes "unrewired n ((u, v) # ps) G" and "simple G"
  shows "simple (rewire_edge p d u v G) \<and> number_of_edges (rewire_edge p d u v G) = number_of_edges G"
proof -
  obtain r candidates where d: "d = (r, candidates)" by (cases d)
  show ?thesis
  proof (cases "r < p \<and> List.find (valid_endpoint G u) candidates \<noteq> None")
    case False
    then have "rewire_edge p d u v G = G" using d by (auto simp: rewire_edge_def)
    then show ?thesis using assms(2) by simp
  next
    case True
    then obtain w where w: "List.find (valid_endpoint G u) candidates = Some w" by auto
    have G': "rewire_edge p d u v G = add_edge u w (remove_edge u v G)"
      using True d w by (simp add: rewire_edge_def)
    have "valid_endpoint G u w" using w by (auto simp: find_Some_iff)
    then have wn: "w \<in> set (nodes G)" and wu: "w \<noteq> u" and wa: "w \<notin> set (adj G u)"
      by (simp_all add: valid_endpoint_def)
    from assms(1) have nd: "nodes G = [0..<n]"
      and pairs: "\<forall>(x, y) \<in> set ((u, v) # ps).
          x < n \<and> y < n \<and> x \<noteq> y \<and> y \<in> set (adj G x) \<and> x \<in> set (adj G y)"
      unfolding unrewired_def by blast+
    have uv: "u < n" "v < n" "u \<noteq> v" "v \<in> set (adj G u)" using pairs by auto
    have un: "u \<in> set (nodes G)" and vn: "v \<in> set (nodes G)" using nd uv(1,2) by simp_all
    have "simple (add_edge u w (remove_edge u v G))"
      using assms(2) un vn wn uv(3) wu wa uv(4) by (rule simple_rewired)
    moreover have "number_of_edges (add_edge u w (remove_edge u v G)) = number_of_edges G"
      using assms(2) un vn wn uv(3) wu wa uv(4) by (rule number_of_edges_rewired)
    ultimately show ?thesis unfolding G' by simp
  qed
qed

lemma rewire_simple:
  "unrewired n ps G \<Longrightarrow> simple G \<Longrightarrow>
     simple (rewire p rnd e ps G) \<and> number_of_edges (rewire p rnd e ps G) = number_of_edges G"
proof (induction ps arbitrary: e G)
  case Nil
  then show ?case by simp
next
  case (Cons pr ps)
  obtain u v where pr: "pr = (u, v)" by (cases pr)
  let ?G = "rewire_edge p (rnd e) u v G"
  have "unrewired n ps ?G" using Cons.prems(1) rewire_edge_step unfolding pr by blast
  moreover have s: "simple ?G \<and> number_of_edges ?G = number_of_edges G"
    using Cons.prems unfolding pr by (rule rewire_edge_simple)
  ultimately have "simple (rewire p rnd (Suc e) ps ?G) \<and>
      number_of_edges (rewire p rnd (Suc e) ps ?G) = number_of_edges ?G"
    using Cons.IH by blast
  then show ?case using s pr by simp
qed

lemma simple_closed_undirected:
  assumes "simple G"
  shows "closed G \<and> undirected G"
proof -
  from assms have sym: "\<And>x y. y \<in> set (adj G x) \<Longrightarrow> x \<in> set (adj G y)"
    unfolding simple_def by blast
  have "m \<in> set (nodes G)" if "m \<in> set (adj G x)" for m x
    using sym [OF that] by (rule adj_is_node)
  then have "closed G" unfolding closed_def by blast
  moreover have "undirected G" unfolding undirected_def using sym by blast
  ultimately show ?thesis ..
qed








section \<open>The claims\<close>

text \<open>
  Claim C1. On a graph that has the node \<open>0\<close> and whose neighbours are all nodes, both
  traversals from \<open>0\<close> end without an error, and the sum of the counts of the histogram
  equals the size of the last snapshot of the discovery stream.
\<close>

theorem traversals_agree_on_total:
  assumes "closed G" and "0 \<in> set (nodes G)"
  shows "\<exists>snaps levels. bfs_generator G 0 = (snaps, None) \<and> bfs_spread G = Inr levels \<and>
           snaps \<noteq> [] \<and> sum_list (map snd levels) = card (last snaps)"
proof -
  obtain snaps r where run: "bfs_generator G 0 = (snaps, r)" by (cases "bfs_generator G 0")
  have r: "r = None" using bfs_generator_closed [OF assms] run by simp
  have ne: "snaps \<noteq> []" using bfs_generator_nonempty [OF assms(2)] run by simp
  from run r obtain levels where lv: "bfs_spread G = Inr levels"
    "sum_list (map snd levels) = length snaps"
    using bfs_spread_total by blast
  have "card (last ({0} # snaps)) + length [0::node] = card {0::node} + length snaps"
    using run r by (intro bfs_generator_loop_count) (simp_all add: bfs_generator_def)
  then have "card (last snaps) = length snaps" using ne by simp
  with run r lv ne show ?thesis by simp
qed

theorem traversals_agree_on_total_witness:
  "closed ring8 \<and> 0 \<in> set (nodes ring8) \<and>
   (\<exists>snaps levels. bfs_generator ring8 0 = (snaps, None) \<and> bfs_spread ring8 = Inr levels \<and>
           snaps \<noteq> [] \<and> sum_list (map snd levels) = card (last snaps))"
  using traversals_agree_on_total [OF ring8_closed ring8_start] ring8_closed ring8_start by simp

text \<open>
  Claim C2, as stated, fails on the star: the stream yields after a whole node has been
  expanded, so the first snapshot already holds the start node and both its neighbours,
  and the next two snapshots add nothing.
\<close>

theorem one_discovery_each_counterexample:
  "bfs_generator star3 0 = ([{0, 1, 2}, {0, 1, 2}, {0, 1, 2}], None) \<and>
   \<not> one_discovery_each (fst (bfs_generator star3 0))"
proof -
  have run: "bfs_generator star3 0 = ([{0, 1, 2}, {0, 1, 2}, {0, 1, 2}], None)"
    by (simp add: bfs_generator_def neighbors_def star3_def insert_commute)
  have "\<not> one_discovery_each [{0, 1, 2}, {0, 1, 2}, {0, 1, 2 :: node}]"
    unfolding one_discovery_each_def by (auto intro: exI [of _ 0])
  then show ?thesis using run by simp
qed

text \<open>
  Claim C2, amended. The stream yields one snapshot per node that can be reached from the
  start node: there is an order of these nodes, beginning with the start node and of
  non-decreasing depth (the order in which the queue hands them out), such that snapshot
  \<open>i\<close> is the start node together with all neighbours of the first \<open>i + 1\<close> nodes of the
  order. The last snapshot holds exactly the reachable nodes; the number of snapshots is
  its size and at most the number of nodes.
\<close>

theorem discovery_stream_snapshots:
  assumes "closed G" and "start \<in> set (nodes G)"
  shows "\<exists>snaps order. bfs_generator G start = (snaps, None) \<and>
           length snaps = length order \<and> distinct order \<and> set order = reachable G start \<and>
           take 1 order = [start] \<and> sorted (map (depth G start) order) \<and>
           (\<forall>i < length snaps.
               snaps ! i = {start} \<union> (\<Union>n \<in> set (take (Suc i) order). set (adj G n))) \<and>
           last snaps = reachable G start \<and>
           length snaps = card (last snaps) \<and> length snaps \<le> length (nodes G)"
proof -
  obtain snaps r where run: "bfs_generator G start = (snaps, r)" by (cases "bfs_generator G start")
  have r: "r = None" using bfs_generator_closed [OF assms] run by simp
  have ne: "snaps \<noteq> []" using bfs_generator_nonempty [OF assms(2)] run by simp
  have loop: "bfs_generator_loop G {start} [start] = (snaps, None)"
    using run r by (simp add: bfs_generator_def)
  have "\<exists>order. length order = length snaps \<and> take (length [start]) order = [start] \<and>
           distinct order \<and> set order = set [start] \<union> (last ({start} # snaps) - {start}) \<and>
           sorted (map (depth G start) order) \<and>
           (\<forall>i < length snaps.
               snaps ! i = {start} \<union> (\<Union>n \<in> set (take (Suc i) order). set (adj G n)))"
    using bfs_inv_init loop by (rule bfs_generator_loop_order)
  then obtain order where o: "length order = length snaps"
    "take (length [start]) order = [start]" "distinct order"
    "set order = set [start] \<union> (last ({start} # snaps) - {start})"
    "sorted (map (depth G start) order)"
    "\<forall>i < length snaps. snaps ! i = {start} \<union> (\<Union>n \<in> set (take (Suc i) order). set (adj G n))"
    by (elim exE conjE)
  have all: "(\<forall>S \<in> set snaps. {start} \<subseteq> S \<and> S \<subseteq> reachable G start \<and> depth_closed G start S) \<and>
         sorted_wrt (\<subseteq>) snaps \<and> (None = (None :: error option) \<longrightarrow> last ({start} # snaps) = reachable G start)"
    using bfs_inv_init loop by (rule bfs_generator_loop_snapshots)
  have "last snaps \<in> set snaps" using ne by simp
  then have "start \<in> last snaps" using all by blast
  then have so: "set order = last snaps" using o(4) ne by auto
  have lr: "last snaps = reachable G start" using all ne by simp
  then have "last snaps \<subseteq> set (nodes G)" using reachable_nodes [OF assms] by simp
  then have "card (last snaps) \<le> card (set (nodes G))" by (intro card_mono) simp_all
  moreover have "card (set (nodes G)) \<le> length (nodes G)" by (rule card_length)
  moreover have "card (last snaps) = length snaps"
    using so o(1,3) distinct_card [of order] by simp
  ultimately have cnt: "length snaps = card (last snaps)" "length snaps \<le> length (nodes G)"
    by simp_all
  have run': "bfs_generator G start = (snaps, None)" using run r by simp
  have len: "length snaps = length order" using o(1) by simp
  have t1: "take 1 order = [start]" using o(2) by simp
  show ?thesis
  proof (intro exI conjI)
    show "bfs_generator G start = (snaps, None)" by (rule run')
    show "length snaps = length order" by (rule len)
    show "distinct order" by (rule o(3))
    show "set order = reachable G start" using so lr by simp
    show "take 1 order = [start]" by (rule t1)
    show "sorted (map (depth G start) order)" by (rule o(5))
    show "\<forall>i < length snaps.
        snaps ! i = {start} \<union> (\<Union>n \<in> set (take (Suc i) order). set (adj G n))" by (rule o(6))
    show "last snaps = reachable G start" by (rule lr)
    show "length snaps = card (last snaps)" by (rule cnt(1))
    show "length snaps \<le> length (nodes G)" by (rule cnt(2))
  qed
qed

theorem discovery_stream_snapshots_witness:
  "closed star3 \<and> 0 \<in> set (nodes star3) \<and>
   (\<exists>snaps order. bfs_generator star3 0 = (snaps, None) \<and>
           length snaps = length order \<and> distinct order \<and> set order = reachable star3 0 \<and>
           take 1 order = [0] \<and> sorted (map (depth star3 0) order) \<and>
           (\<forall>i < length snaps.
               snaps ! i = {0} \<union> (\<Union>n \<in> set (take (Suc i) order). set (adj star3 n))) \<and>
           last snaps = reachable star3 0 \<and>
           length snaps = card (last snaps) \<and> length snaps \<le> length (nodes star3))"
  using discovery_stream_snapshots [OF star3_closed star3_start] star3_closed star3_start by simp

text \<open>
  Claim C3. On an undirected graph whose neighbours are all nodes, the stream from a node
  of the graph ends without an error; its last snapshot is the connected component of the
  start node, every snapshot lies inside that component, every node of a snapshot is at
  most as deep as every node of the component that the snapshot does not hold yet (so
  nodes enter the snapshots in non-decreasing depth), and a start node without neighbours
  gives the single snapshot that holds only the start node.
\<close>

theorem discovery_stream_component:
  assumes "closed G" and "undirected G" and "start \<in> set (nodes G)"
  shows "\<exists>snaps. bfs_generator G start = (snaps, None) \<and> snaps \<noteq> [] \<and>
           last snaps = component G start \<and> card (last snaps) = card (component G start) \<and>
           (\<forall>S \<in> set snaps. S \<subseteq> component G start) \<and>
           (\<forall>S \<in> set snaps. \<forall>u \<in> S. \<forall>w \<in> component G start - S.
               depth G start u \<le> depth G start w) \<and>
           (adj G start = [] \<longrightarrow> snaps = [{start}])"
proof -
  obtain snaps r where run: "bfs_generator G start = (snaps, r)" by (cases "bfs_generator G start")
  have r: "r = None" using bfs_generator_closed [OF assms(1,3)] run by simp
  have ne: "snaps \<noteq> []" using bfs_generator_nonempty [OF assms(3)] run by simp
  have c: "component G start = reachable G start" using assms(2) by (rule component_reachable)
  have loop: "bfs_generator_loop G {start} [start] = (snaps, r)" using run by (simp add: bfs_generator_def)
  have all: "(\<forall>S \<in> set snaps. {start} \<subseteq> S \<and> S \<subseteq> reachable G start \<and> depth_closed G start S) \<and>
         sorted_wrt (\<subseteq>) snaps \<and> (r = None \<longrightarrow> last ({start} # snaps) = reachable G start)"
    using bfs_inv_init loop by (rule bfs_generator_loop_snapshots)
  have l: "last snaps = component G start" using all r ne c by simp
  have s: "\<forall>S \<in> set snaps. S \<subseteq> component G start" using all c by simp
  have d: "\<forall>S \<in> set snaps. \<forall>u \<in> S. \<forall>w \<in> component G start - S. depth G start u \<le> depth G start w"
    using all c unfolding depth_closed_def by simp
  have i: "adj G start = [] \<longrightarrow> snaps = [{start}]"
    using bfs_generator_isolated [OF assms(3)] run by simp
  show ?thesis using run r ne l s d i by simp
qed

theorem discovery_stream_component_witness:
  "closed path3 \<and> undirected path3 \<and> 1 \<in> set (nodes path3) \<and>
   (\<exists>snaps. bfs_generator path3 1 = (snaps, None) \<and> snaps \<noteq> [] \<and>
           last snaps = component path3 1 \<and> card (last snaps) = card (component path3 1) \<and>
           (\<forall>S \<in> set snaps. S \<subseteq> component path3 1) \<and>
           (\<forall>S \<in> set snaps. \<forall>u \<in> S. \<forall>w \<in> component path3 1 - S.
               depth path3 1 u \<le> depth path3 1 w) \<and>
           (adj path3 1 = [] \<longrightarrow> snaps = [{1}]))"
  using discovery_stream_component [OF path3_closed path3_undirected path3_start]
    path3_closed path3_undirected path3_start by simp

text \<open>
  Claim C4. A valid configuration with rewiring probability 0, built with a random source
  whose numbers lie in the unit interval, gives the ring lattice on the nodes
  \<open>0, ..., N - 1\<close>: the neighbours of node \<open>i\<close> are exactly the nodes \<open>i + j\<close> and \<open>i - j\<close>
  modulo \<open>N\<close> for \<open>j\<close> from 1 to half the base degree, each once, so the degree of every
  node is the base degree.
\<close>

theorem ring_lattice_without_rewiring:
  assumes "valid_config cfg" and "rewireProbability cfg = 0" and "unit_source rnd"
  shows "\<exists>G. build cfg rnd = Inr G \<and> nodes G = [0..<population cfg] \<and>
           (\<forall>i < population cfg.
              set (adj G i) =
                {(i + j) mod population cfg | j. 1 \<le> j \<and> j \<le> baseDegree cfg div 2} \<union>
                {(i + population cfg - j) mod population cfg | j. 1 \<le> j \<and> j \<le> baseDegree cfg div 2} \<and>
              distinct (adj G i) \<and> length (adj G i) = baseDegree cfg)"
proof -
  let ?n = "population cfg" and ?k = "baseDegree cfg"
  let ?G = "ring_lattice ?n ?k"
  have "rewire (rewireProbability cfg) rnd 0 (ring_pairs ?n ?k) ?G = ?G"
    using assms(3) assms(2) by (intro rewire_never) simp_all
  then have b: "build cfg rnd = Inr ?G" using build_valid [OF assms(1), of rnd] by simp
  have k: "2 * (?k div 2) = ?k" using assms(1) by (auto simp: valid_config_def)
  have r: "2 * (?k div 2) < ?n" using assms(1) by (rule valid_config_ring)
  have "\<forall>i < ?n. set (adj ?G i) =
                {(i + j) mod ?n | j. 1 \<le> j \<and> j \<le> ?k div 2} \<union>
                {(i + ?n - j) mod ?n | j. 1 \<le> j \<and> j \<le> ?k div 2} \<and>
              distinct (adj ?G i) \<and> length (adj ?G i) = ?k"
    using set_ring_neighbors [of ?n ?k] distinct_ring_neighbors [OF r] length_ring_neighbors [of ?n ?k] k
    by (simp add: adj_ring_lattice)
  then show ?thesis using b nodes_ring_lattice [of ?n ?k] by blast
qed

theorem ring_lattice_without_rewiring_witness:
  "valid_config config_20_4 \<and> rewireProbability config_20_4 = 0 \<and> unit_source draws \<and>
   (\<exists>G. build config_20_4 draws = Inr G \<and> nodes G = [0..<population config_20_4] \<and>
           (\<forall>i < population config_20_4.
              set (adj G i) =
                {(i + j) mod population config_20_4 | j. 1 \<le> j \<and> j \<le> baseDegree config_20_4 div 2} \<union>
                {(i + population config_20_4 - j) mod population config_20_4 | j.
                   1 \<le> j \<and> j \<le> baseDegree config_20_4 div 2} \<and>
              distinct (adj G i) \<and> length (adj G i) = baseDegree config_20_4))"
proof -
  have h: "valid_config config_20_4" "rewireProbability config_20_4 = 0" "unit_source draws"
    by (simp_all add: valid_config_def config_20_4_def unit_source_def draws_def)
  show ?thesis using ring_lattice_without_rewiring [OF h] h by blast
qed




text \<open>
  Claim C6. For every valid configuration and every random source the builder returns a
  simple undirected graph on the nodes \<open>0, ..., N - 1\<close> with exactly \<open>N * k / 2\<close> edges, the
  number of edges of the ring lattice: the rewiring phase replaces an edge by an edge that
  was not there and never changes the number of edges, nor the sum of the degrees.
\<close>

theorem rewiring_keeps_edge_count:
  assumes "valid_config cfg"
  shows "\<exists>G. build cfg rnd = Inr G \<and>
           number_of_edges G = population cfg * baseDegree cfg div 2 \<and>
           number_of_edges G = number_of_edges (ring_lattice (population cfg) (baseDegree cfg)) \<and>
           degree_sum G = population cfg * baseDegree cfg \<and>
           nodes G = [0..<population cfg] \<and> closed G \<and> undirected G \<and>
           (\<forall>i < population cfg. distinct (adj G i) \<and> i \<notin> set (adj G i))"
proof -
  let ?n = "population cfg" and ?k = "baseDegree cfg"
  let ?R = "ring_lattice ?n ?k"
  let ?G = "rewire (rewireProbability cfg) rnd 0 (ring_pairs ?n ?k) ?R"
  have k: "2 * (?k div 2) = ?k" using assms by (auto simp: valid_config_def)
  have r: "2 * (?k div 2) < ?n" using assms by (rule valid_config_ring)
  have u: "unrewired ?n (ring_pairs ?n ?k) ?R" using r by (rule unrewired_ring)
  have s: "simple ?R" using r by (rule simple_ring_lattice)
  have d: "degree_sum ?G = degree_sum ?R \<and> nodes ?G = [0..<?n]"
    using u by (rule rewire_degree_sum)
  have e: "simple ?G \<and> number_of_edges ?G = number_of_edges ?R"
    using u s by (rule rewire_simple)
  have c: "closed ?G \<and> undirected ?G" using e simple_closed_undirected by blast
  have "?n * (?k div 2) = ?n * ?k div 2" using k by (metis mult.left_commute nonzero_mult_div_cancel_left zero_neq_numeral)
  then have ne: "number_of_edges ?R = ?n * ?k div 2"
    using number_of_edges_ring_lattice [OF r] by simp
  have ds: "degree_sum ?G = ?n * ?k" using d k by (simp add: degree_sum_ring_lattice)
  have sm: "\<forall>i < ?n. distinct (adj ?G i) \<and> i \<notin> set (adj ?G i)"
    using e unfolding simple_def by blast
  show ?thesis
  proof (intro exI conjI)
    show "build cfg rnd = Inr ?G" using assms by (rule build_valid)
    show "number_of_edges ?G = ?n * ?k div 2" using e ne by simp
    show "number_of_edges ?G = number_of_edges ?R" using e by simp
    show "degree_sum ?G = ?n * ?k" by (rule ds)
    show "nodes ?G = [0..<?n]" using d by simp
    show "closed ?G" using c by simp
    show "undirected ?G" using c by simp
    show "\<forall>i < ?n. distinct (adj ?G i) \<and> i \<notin> set (adj ?G i)" by (rule sm)
  qed
qed

theorem rewiring_keeps_edge_count_witness:
  "valid_config config_8_4 \<and>
   (\<exists>G. build config_8_4 draws = Inr G \<and>
           number_of_edges G = population config_8_4 * baseDegree config_8_4 div 2 \<and>
           number_of_edges G =
             number_of_edges (ring_lattice (population config_8_4) (baseDegree config_8_4)) \<and>
           degree_sum G = population config_8_4 * baseDegree config_8_4 \<and>
           nodes G = [0..<population config_8_4] \<and> closed G \<and> undirected G \<and>
           (\<forall>i < population config_8_4. distinct (adj G i) \<and> i \<notin> set (adj G i)))"
proof -
  have h: "valid_config config_8_4" by (simp add: valid_config_def config_8_4_def)
  show ?thesis using rewiring_keeps_edge_count [OF h, of draws] h by blast
qed

text \<open>
  Claim C7. The histogram traversal returns a histogram whose depths, in insertion order,
  are \<open>0, 1, ..., d\<close> with no gap, and every count is at least 1. This holds for every
  graph that has the node \<open>0\<close> and whose neighbours are all nodes, connected or not.
\<close>

theorem histogram_depths_contiguous:
  assumes "closed G" and "0 \<in> set (nodes G)"
  shows "\<exists>levels. bfs_spread G = Inr levels \<and> levels \<noteq> [] \<and>
           map fst levels = [0..<length levels] \<and> (\<forall>c \<in> set (map snd levels). 1 \<le> c)"
proof -
  obtain snaps r where run: "bfs_generator G 0 = (snaps, r)" by (cases "bfs_generator G 0")
  have "r = None" using bfs_generator_closed [OF assms] run by simp
  with run obtain levels where "bfs_spread G = Inr levels" using bfs_spread_total by blast
  then show ?thesis using bfs_spread_levels by blast
qed

theorem histogram_depths_contiguous_witness:
  "closed ring8 \<and> 0 \<in> set (nodes ring8) \<and>
   (\<exists>levels. bfs_spread ring8 = Inr levels \<and> levels \<noteq> [] \<and>
           map fst levels = [0..<length levels] \<and> (\<forall>c \<in> set (map snd levels). 1 \<le> c))"
  using histogram_depths_contiguous [OF ring8_closed ring8_start] ring8_closed ring8_start by simp

text \<open>
  Claim C8, as stated, fails: the traversals take the neighbours of a node in the order in
  which the neighbour query yields them, which need not be ascending. On the ring lattice
  \<open>ring8_4\<close> the third snapshot holds node 5, visited through node 7; with ascending
  neighbour lists it would hold node 4, visited through node 2.
\<close>

theorem ascending_order_counterexample:
  "fst (bfs_generator ring8_4 0) ! 2 = {0, 1, 2, 3, 5, 6, 7} \<and>
   fst (bfs_generator (ascending ring8_4) 0) ! 2 = {0, 1, 2, 3, 4, 6, 7} \<and>
   bfs_generator ring8_4 0 \<noteq> bfs_generator (ascending ring8_4) 0"
proof -
  have a: "fst (bfs_generator ring8_4 0) ! 2 = {0, 1, 2, 3, 5, 6, 7}"
    by code_simp
  have b: "fst (bfs_generator (ascending ring8_4) 0) ! 2 = {0, 1, 2, 3, 4, 6, 7}"
    by code_simp
  have "(4::node) \<notin> {0, 1, 2, 3, 5, 6, 7}" by simp
  then have "fst (bfs_generator ring8_4 0) ! 2 \<noteq> fst (bfs_generator (ascending ring8_4) 0) ! 2"
    unfolding a b by blast
  then show ?thesis using a b by metis
qed

text \<open>
  Claim C8, amended. Both traversals take the neighbours of a node in the order of its
  neighbour list: the unvisited ones are appended to the queue in that order. The output
  is determined by the neighbour query and the start node: two graphs that answer every
  neighbour query alike give the same stream and the same histogram.
\<close>

theorem traversal_follows_neighbor_order:
  assumes "\<forall>n. neighbors G n = neighbors G' n"
  shows "bfs_generator G start = bfs_generator G' start \<and> bfs_spread G = bfs_spread G' \<and>
         (distinct ns \<longrightarrow>
            snd (visit_neighbors ns V Q) = Q @ filter (\<lambda>n. n \<notin> V) ns \<and>
            snd (spread_neighbors ns d V Q\<^sub>d) = Q\<^sub>d @ map (\<lambda>n. (n, d + 1)) (filter (\<lambda>n. n \<notin> V) ns))"
proof -
  have "distinct ns \<longrightarrow> snd (spread_neighbors ns d V Q\<^sub>d) =
      Q\<^sub>d @ map (\<lambda>n. (n, d + 1)) (filter (\<lambda>n. n \<notin> V) ns)"
    by (simp add: spread_neighbors_eq visit_neighbors_filter)
  moreover have "distinct ns \<longrightarrow> snd (visit_neighbors ns V Q) = Q @ filter (\<lambda>n. n \<notin> V) ns"
    by (simp add: visit_neighbors_filter)
  moreover have "bfs_generator G start = bfs_generator G' start"
    unfolding bfs_generator_def using assms by (rule bfs_generator_loop_cong)
  moreover have "bfs_spread G = bfs_spread G'"
    unfolding bfs_spread_def using assms by (rule bfs_spread_loop_cong)
  ultimately show ?thesis by blast
qed

theorem traversal_follows_neighbor_order_witness:
  "(\<forall>n. neighbors pair2 n = neighbors swapped n) \<and>
   bfs_generator pair2 0 = bfs_generator swapped 0 \<and> bfs_spread pair2 = bfs_spread swapped \<and>
   distinct [1, 7, 2, 6 :: node] \<and>
   snd (visit_neighbors [1, 7, 2, 6] {0} []) = [] @ filter (\<lambda>n. n \<notin> {0}) [1, 7, 2, 6] \<and>
   snd (spread_neighbors [1, 7, 2, 6] 0 {0} []) =
     [] @ map (\<lambda>n. (n, 0 + 1)) (filter (\<lambda>n. n \<notin> {0}) [1, 7, 2, 6])"
proof -
  have h: "\<forall>n. neighbors pair2 n = neighbors swapped n"
    by (simp add: neighbors_def pair2_def swapped_def)
  show ?thesis
    using traversal_follows_neighbor_order [OF h, of 0 "[1, 7, 2, 6]" "{0}" "[]" 0 "[]"] h by simp
qed

text \<open>
  Claim C9. When the start node \<open>0\<close> is not a node of the graph (as in the empty graph
  of population 0), neither traversal returns an empty result: the first pull of the
  discovery stream raises, before any snapshot, and the histogram traversal raises.
\<close>

theorem traversal_without_start_fails:
  assumes "0 \<notin> set (nodes G)"
  shows "bfs_generator G 0 = ([], Some (NetworkXError 0)) \<and> bfs_spread G = Inl (NetworkXError 0)"
  using neighbors_not_node [OF assms] by (simp add: bfs_generator_def bfs_spread_def)

theorem traversal_without_start_fails_witness:
  "0 \<notin> set (nodes []) \<and> bfs_generator [] 0 = ([], Some (NetworkXError 0)) \<and>
   bfs_spread [] = Inl (NetworkXError 0)"
  using traversal_without_start_fails [of "[]"] by (simp add: nodes_def)

text \<open>
  Claim C10. On a graph whose neighbours are all nodes, from a start node of the graph:
  every snapshot is contained in every later one, holds the start node and holds nodes of
  the graph only. Called in any store, the generator yields references that are pairwise
  different and different from the reference of \<^verbatim>\<open>visited\<close>, and when the stream is
  exhausted every yielded object still holds the snapshot it held when it was yielded;
  objects that existed before the call are unchanged.
\<close>

theorem snapshots_grow_and_are_copies:
  assumes "closed G" and "start \<in> set (nodes G)"
  shows "\<exists>snaps refs \<sigma>\<^sub>e. bfs_generator G start = (snaps, None) \<and>
           bfs_generator_store \<sigma> G start = ((refs, \<sigma>\<^sub>e), None) \<and>
           sorted_wrt (\<subseteq>) snaps \<and> (\<forall>S \<in> set snaps. start \<in> S \<and> S \<subseteq> set (nodes G)) \<and>
           distinct refs \<and> fresh \<sigma> \<notin> set refs \<and> map (objects \<sigma>\<^sub>e) refs = snaps \<and>
           (\<forall>b < fresh \<sigma>. objects \<sigma>\<^sub>e b = objects \<sigma> b)"
proof -
  obtain snaps r where run: "bfs_generator G start = (snaps, r)" by (cases "bfs_generator G start")
  have r: "r = None" using bfs_generator_closed [OF assms] run by simp
  obtain refs \<sigma>\<^sub>e r' where st: "bfs_generator_store \<sigma> G start = ((refs, \<sigma>\<^sub>e), r')"
    by (metis prod.exhaust)
  have pure: "map (objects \<sigma>\<^sub>e) refs = fst (bfs_generator G start) \<and> r' = snd (bfs_generator G start) \<and>
         distinct refs \<and> fresh \<sigma> \<notin> set refs \<and> (\<forall>b < fresh \<sigma>. objects \<sigma>\<^sub>e b = objects \<sigma> b)"
    using st by (rule bfs_generator_store_pure)
  have loop: "bfs_generator_loop G {start} [start] = (snaps, r)" using run by (simp add: bfs_generator_def)
  have all: "(\<forall>S \<in> set snaps. {start} \<subseteq> S \<and> S \<subseteq> reachable G start \<and> depth_closed G start S) \<and>
         sorted_wrt (\<subseteq>) snaps \<and> (r = None \<longrightarrow> last ({start} # snaps) = reachable G start)"
    using bfs_inv_init loop by (rule bfs_generator_loop_snapshots)
  have sub: "\<forall>S \<in> set snaps. start \<in> S \<and> S \<subseteq> set (nodes G)"
    using all reachable_nodes [OF assms] by blast
  have mono: "sorted_wrt (\<subseteq>) snaps" using all by blast
  have run': "bfs_generator G start = (snaps, None)" using run r by simp
  have st': "bfs_generator_store \<sigma> G start = ((refs, \<sigma>\<^sub>e), None)" using st pure run' by simp
  have cont: "map (objects \<sigma>\<^sub>e) refs = snaps" using pure run' by simp
  have d: "distinct refs" and f: "fresh \<sigma> \<notin> set refs"
    and fr: "\<forall>b < fresh \<sigma>. objects \<sigma>\<^sub>e b = objects \<sigma> b"
    using pure by blast+
  show ?thesis
  proof (intro exI conjI)
    show "bfs_generator G start = (snaps, None)" by (rule run')
    show "bfs_generator_store \<sigma> G start = ((refs, \<sigma>\<^sub>e), None)" by (rule st')
    show "sorted_wrt (\<subseteq>) snaps" by (rule mono)
    show "\<forall>S \<in> set snaps. start \<in> S \<and> S \<subseteq> set (nodes G)" by (rule sub)
    show "distinct refs" by (rule d)
    show "fresh \<sigma> \<notin> set refs" by (rule f)
    show "map (objects \<sigma>\<^sub>e) refs = snaps" by (rule cont)
    show "\<forall>b < fresh \<sigma>. objects \<sigma>\<^sub>e b = objects \<sigma> b" by (rule fr)
  qed
qed

theorem snapshots_grow_and_are_copies_witness:
  "closed star3 \<and> 0 \<in> set (nodes star3) \<and>
   (\<exists>snaps refs \<sigma>\<^sub>e. bfs_generator star3 0 = (snaps, None) \<and>
           bfs_generator_store empty_store star3 0 = ((refs, \<sigma>\<^sub>e), None) \<and>
           sorted_wrt (\<subseteq>) snaps \<and> (\<forall>S \<in> set snaps. 0 \<in> S \<and> S \<subseteq> set (nodes star3)) \<and>
           distinct refs \<and> fresh empty_store \<notin> set refs \<and> map (objects \<sigma>\<^sub>e) refs = snaps \<and>
           (\<forall>b < fresh empty_store. objects \<sigma>\<^sub>e b = objects empty_store b))"
  using snapshots_grow_and_are_copies [OF star3_closed star3_start, of empty_store]
    star3_closed star3_start by simp

end
